theory Spec2Isabelle
  imports Complex_Main "HOL-Library.Log_Nat"
begin

section \<open>The lines generator: data model\<close>

text \<open>
  The repository is one TypeScript script, \<^verbatim>\<open>src/index.ts\<close>, in two variants: the
  first draws four sections per page (quadrant mode), the second one section per page
  (full-page mode). \<^verbatim>\<open>drawSection\<close> and the driver loop are the same text in both.

  Numbers. A JavaScript number is an IEEE 754 double, and every arithmetic operation
  of the script gives the double nearest to the exact result, ties going to the even
  significand. The model has the same operations: a finite double is the rational it
  denotes (\<^typ>\<open>rat\<close>), and \<open>round_double\<close> rounds an exact result. The two zeros of
  the doubles are one number here; the script never tells them apart. Line counts are
  integers (\<^typ>\<open>int\<close>), added as doubles add them (\<open>dbl_int\<close>). The two counters
  that start at 0 and go up in steps of 1 (\<^verbatim>\<open>lineIndex\<close>, \<^verbatim>\<open>currentSectionIndex\<close>) are
  \<^typ>\<open>nat\<close>: a double counts exactly up to \<open>2^53\<close>, more steps than a run can take.
\<close>

section \<open>Doubles\<close>

text \<open>
  A value of the script: a finite double, or one of \<^verbatim>\<open>Infinity\<close>, \<^verbatim>\<open>-Infinity\<close> and
  \<^verbatim>\<open>NaN\<close>. The script only ever draws such a value, it never compares or divides by
  one, so the three are one constructor.
\<close>

datatype number = Fin rat | NonFinite

text \<open>The integer nearest to \<open>u\<close>; of two nearest ones, the even one.\<close>

definition round_half_even :: "rat \<Rightarrow> int" where
  "round_half_even u =
     (let f = \<lfloor>u\<rfloor>; d = u - of_int f
      in if d < 1 / 2 then f else if 1 / 2 < d then f + 1 else if even f then f else f + 1)"

text \<open>
  The binary exponent of \<open>r \<noteq> 0\<close>: the \<open>e\<close> with \<open>2^e \<le> |r| < 2^(e+1)\<close> (lemmas
  \<open>exponent_lower\<close>, \<open>exponent_upper\<close>). The doubles around \<open>r\<close> are the multiples of
  \<open>2^(e - 52)\<close>, and those of \<open>2^(-1074)\<close> where \<open>r\<close> is subnormal: the \<open>quantum\<close>.
\<close>

definition exponent :: "rat \<Rightarrow> int" where
  "exponent r =
     (if 1 \<le> \<bar>r\<bar> then bitlen \<lfloor>\<bar>r\<bar>\<rfloor> - 1 else - bitlen (\<lceil>1 / \<bar>r\<bar>\<rceil> - 1))"

definition quantum :: "rat \<Rightarrow> int" where
  "quantum r = max (exponent r - 52) (- 1074)"

text \<open>Rounding to the nearest double, with no bound on the exponent from above.\<close>

definition round_finite :: "rat \<Rightarrow> rat" where
  "round_finite r =
     (if r = 0 then 0
      else of_int (round_half_even (r / 2 powi quantum r)) * 2 powi quantum r)"

text \<open>Rounding as the doubles do it: a result of magnitude \<open>2^1024\<close> or more (an exponent
  of 1024 or more, lemma \<open>round_double_alt\<close>) is an infinity.\<close>

definition round_double :: "rat \<Rightarrow> number" where
  "round_double r =
     (let v = round_finite r in if v \<noteq> 0 \<and> 1024 \<le> exponent v then NonFinite else Fin v)"

text \<open>
  \<^verbatim>\<open>a / b\<close> on finite operands: no exception, a non-finite value when \<open>b = 0\<close>.
  \<^verbatim>\<open>a * b\<close> and \<^verbatim>\<open>a + b\<close> with a finite left operand: a non-finite right operand
  gives a non-finite result (in \<open>num_mul\<close> the left operand is \<open>lineIndex + 1\<close>, never 0).
\<close>

definition num_div :: "rat \<Rightarrow> rat \<Rightarrow> number" where
  "num_div a b = (if b = 0 then NonFinite else round_double (a / b))"

fun num_mul :: "rat \<Rightarrow> number \<Rightarrow> number" where
  "num_mul a (Fin b) = round_double (a * b)"
| "num_mul a NonFinite = NonFinite"

fun num_add :: "rat \<Rightarrow> number \<Rightarrow> number" where
  "num_add a (Fin b) = round_double (a + b)"
| "num_add a NonFinite = NonFinite"

text \<open>
  \<^verbatim>\<open>r / 2\<close> and \<^verbatim>\<open>r - 0.5\<close>. Neither can take a double out of the range of the
  doubles, so the results are finite numbers.
\<close>

definition half :: "rat \<Rightarrow> rat" where
  "half r = round_finite (r / 2)"

definition minus_half :: "rat \<Rightarrow> rat" where
  "minus_half r = round_finite (r - 1 / 2)"

text \<open>
  The double nearest to an integer, which is an integer again: the result of adding two
  line counts. (A sum beyond the largest double is an infinity in the source. The model
  goes on with the integer, which the loop and the drawers treat as they treat the
  infinity: it is above every \<^verbatim>\<open>maxNumLines\<close> when positive, and draws no line when
  negative.)
\<close>

definition dbl_int :: "int \<Rightarrow> int" where
  "dbl_int n = \<lfloor>round_finite (of_int n)\<rfloor>"

text \<open>The rationals that are doubles: rounding leaves them as they are.\<close>

definition is_double :: "rat \<Rightarrow> bool" where
  "is_double r \<longleftrightarrow> round_double r = Fin r"

section \<open>The data of the script\<close>

text \<open>\<^verbatim>\<open>type CenterLineSection\<close>: a union of two object shapes, told apart by
  \<^verbatim>\<open>"numLines" in currentCenterLines\<close>. \<open>Range\<close> carries \<^verbatim>\<open>minNumLines\<close>,
  \<^verbatim>\<open>maxNumLines\<close> and \<^verbatim>\<open>skipInterval\<close>, in this order; \<open>Fixed\<close> carries \<^verbatim>\<open>numLines\<close>.\<close>

datatype CenterLineSection =
    Range int int int
  | Fixed int

text \<open>\<^verbatim>\<open>type LinesGeneratorConfig\<close>. The numbers of a configuration are doubles.\<close>

record LinesGeneratorConfig =
  centerLines :: "CenterLineSection list"
  pageHeight :: rat
  pageWidth :: rat

text \<open>
  What the script observes of pdf-lib: a document is the list of its pages, a page has a
  size and the sequence of \<^verbatim>\<open>drawLine\<close> calls made on it. A page that \<^verbatim>\<open>addPage()\<close> has
  just created has the library's default size, written \<open>None\<close>.
\<close>

record Point =
  px :: number
  py :: number

record DrawLineOptions =
  lineStart :: Point
  lineEnd :: Point
  thickness :: rat
  dashArray :: "rat list"

record PDFPage =
  pageSize :: "(rat \<times> rat) option"
  content :: "DrawLineOptions list"

type_synonym PDFDocument = "PDFPage list"

definition PDFDocument_create :: PDFDocument where
  "PDFDocument_create = []"

definition newPage :: PDFPage where
  "newPage = \<lparr>pageSize = None, content = []\<rparr>"

definition setSize :: "rat \<Rightarrow> rat \<Rightarrow> PDFPage \<Rightarrow> PDFPage" where
  "setSize w h page = page\<lparr>pageSize := Some (w, h)\<rparr>"

definition drawLine :: "DrawLineOptions \<Rightarrow> PDFPage \<Rightarrow> PDFPage" where
  "drawLine opts page = page\<lparr>content := content page @ [opts]\<rparr>"

text \<open>The two errors the script throws.\<close>

datatype error = NoCaseFound | CurrentPageUndefined

section \<open>drawSection\<close>

text \<open>
  The \<^verbatim>\<open>for\<close> loop of \<^verbatim>\<open>drawSection\<close>, from \<^verbatim>\<open>lineIndex\<close> on. The page is mutated in
  the source and passed through here.
\<close>

function drawSectionLoop ::
  "PDFPage \<Rightarrow> rat \<Rightarrow> rat \<Rightarrow> rat \<Rightarrow> int \<Rightarrow> number \<Rightarrow> nat \<Rightarrow> PDFPage" where
  "drawSectionLoop page x y height numCenterLines lineSpacing lineIndex =
     (if int lineIndex < numCenterLines then
        (let lineX = num_add x (num_mul (of_nat lineIndex + 1) lineSpacing);
             start = \<lparr>px = lineX, py = Fin y\<rparr>;
             end' = \<lparr>px = lineX, py = round_double (y + height)\<rparr>
         in if lineIndex mod 2 = 0
            then drawSectionLoop
                   (drawLine \<lparr>lineStart = start, lineEnd = end', thickness = 0,
                              dashArray = [4, 2, 1, 2]\<rparr> page)
                   x y height numCenterLines lineSpacing (lineIndex + 1)
            else drawSectionLoop
                   (drawLine \<lparr>lineStart = start, lineEnd = end', thickness = 0,
                              dashArray = [4, 1]\<rparr> page)
                   x y height numCenterLines lineSpacing (lineIndex + 1))
      else page)"
  by pat_completeness auto
termination
  by (relation "measure (\<lambda>(page, x, y, height, numCenterLines, lineSpacing, lineIndex).
        nat (numCenterLines - int lineIndex))") auto

declare drawSectionLoop.simps [simp del]

definition drawSection :: "PDFPage \<Rightarrow> rat \<Rightarrow> rat \<Rightarrow> rat \<Rightarrow> rat \<Rightarrow> int \<Rightarrow> PDFPage" where
  "drawSection page x y width height numCenterLines =
     (let lineSpacing = num_div width (of_int (dbl_int (numCenterLines + 1)))
      in drawSectionLoop page x y height numCenterLines lineSpacing 0)"

section \<open>createSectionDrawer\<close>

text \<open>
  The closure of \<^verbatim>\<open>createSectionDrawer\<close>: the document and the two \<^verbatim>\<open>let\<close> variables.
  \<open>currentPage\<close> is a reference to a page of the document, here its index.
\<close>

record SectionDrawer =
  pdfDoc :: PDFDocument
  currentSectionIndex :: nat
  currentPage :: "nat option"

definition createSectionDrawer :: "PDFDocument \<Rightarrow> SectionDrawer" where
  "createSectionDrawer doc =
     \<lparr>pdfDoc = doc, currentSectionIndex = 0, currentPage = None\<rparr>"

definition drawCutLine :: "(rat \<times> rat) \<times> (rat \<times> rat) \<Rightarrow> PDFPage \<Rightarrow> PDFPage" where
  "drawCutLine pts page =
     (case pts of ((startX, startY), (endX, endY)) \<Rightarrow>
        drawLine \<lparr>lineStart = \<lparr>px = Fin startX, py = Fin startY\<rparr>,
                  lineEnd = \<lparr>px = Fin endX, py = Fin endY\<rparr>,
                  thickness = 0, dashArray = [10, 10]\<rparr> page)"

text \<open>
  \<^verbatim>\<open>createSectionedPage\<close>, quadrant variant: the new page with its size and its six cut
  lines. (The source adds the blank page to the document first and then draws on it
  through the reference; nothing reads the document in between.) It returns the
  document and the reference to the new page.
\<close>

definition sectionedPage_quad :: "LinesGeneratorConfig \<Rightarrow> PDFPage" where
  "sectionedPage_quad cfg =
     (let pageWidth = pageWidth cfg; pageHeight = pageHeight cfg;
          page = setSize pageWidth pageHeight newPage;
          page = drawCutLine ((1 / 2, 0), (1 / 2, pageHeight)) page;
          page = drawCutLine ((minus_half pageWidth, 0), (minus_half pageWidth, pageHeight)) page;
          page = drawCutLine ((0, pageHeight), (pageWidth, pageHeight)) page;
          page = drawCutLine ((0, 0), (pageWidth, 0)) page;
          page = drawCutLine ((half pageWidth, 0), (half pageWidth, pageHeight)) page;
          page = drawCutLine ((0, half pageHeight), (pageWidth, half pageHeight)) page
      in page)"

definition createSectionedPage_quad ::
  "LinesGeneratorConfig \<Rightarrow> PDFDocument \<Rightarrow> PDFDocument \<times> nat" where
  "createSectionedPage_quad cfg doc = (doc @ [sectionedPage_quad cfg], length doc)"

text \<open>The full-page variant: the top border is half a point lower, and there is one
  guide line, the horizontal centre line.\<close>

definition sectionedPage_full :: "LinesGeneratorConfig \<Rightarrow> PDFPage" where
  "sectionedPage_full cfg =
     (let pageWidth = pageWidth cfg; pageHeight = pageHeight cfg;
          page = setSize pageWidth pageHeight newPage;
          page = drawCutLine ((1 / 2, 0), (1 / 2, pageHeight)) page;
          page = drawCutLine ((minus_half pageWidth, 0), (minus_half pageWidth, pageHeight)) page;
          page = drawCutLine ((0, minus_half pageHeight), (pageWidth, minus_half pageHeight)) page;
          page = drawCutLine ((0, 0), (pageWidth, 0)) page;
          page = drawCutLine ((0, half pageHeight), (pageWidth, half pageHeight)) page
      in page)"

definition createSectionedPage_full ::
  "LinesGeneratorConfig \<Rightarrow> PDFDocument \<Rightarrow> PDFDocument \<times> nat" where
  "createSectionedPage_full cfg doc = (doc @ [sectionedPage_full cfg], length doc)"

text \<open>\<^verbatim>\<open>drawNextSection\<close>, quadrant variant: the \<^verbatim>\<open>switch\<close> on
  \<^verbatim>\<open>currentSectionIndex % 4\<close> with its \<^verbatim>\<open>default\<close> branch, the guard on \<open>currentPage\<close>,
  the call of \<^verbatim>\<open>drawSection\<close> on the page that \<open>currentPage\<close> refers to, the increment.\<close>

definition drawNextSection_quad ::
  "LinesGeneratorConfig \<Rightarrow> SectionDrawer \<Rightarrow> int \<Rightarrow> error + SectionDrawer" where
  "drawNextSection_quad cfg st numCenterLines =
     (let pageWidth = pageWidth cfg; pageHeight = pageHeight cfg;
          c = currentSectionIndex st mod 4;
          switch =
            (if c = 0 then
               (case createSectionedPage_quad cfg (pdfDoc st) of (doc, page) \<Rightarrow>
                  Inr (st\<lparr>pdfDoc := doc, currentPage := Some page\<rparr>, (0, half pageHeight)))
             else if c = 1 then Inr (st, (half pageWidth, half pageHeight))
             else if c = 2 then Inr (st, (0, 0))
             else if c = 3 then Inr (st, (half pageWidth, 0))
             else Inl NoCaseFound)
      in case switch of
           Inl e \<Rightarrow> Inl e
         | Inr (st1, (sx, sy)) \<Rightarrow>
             (case currentPage st1 of
                None \<Rightarrow> Inl CurrentPageUndefined
              | Some p \<Rightarrow>
                  Inr (st1\<lparr>pdfDoc := (pdfDoc st1)
                             [p := drawSection (pdfDoc st1 ! p) sx sy
                                     (half pageWidth) (half pageHeight) numCenterLines],
                           currentSectionIndex := currentSectionIndex st1 + 1\<rparr>)))"

text \<open>\<^verbatim>\<open>drawNextSection\<close>, full-page variant: always a new page, then the same guard
  and the call of \<^verbatim>\<open>drawSection\<close>; the section index is never changed.\<close>

definition drawNextSection_full ::
  "LinesGeneratorConfig \<Rightarrow> SectionDrawer \<Rightarrow> int \<Rightarrow> error + SectionDrawer" where
  "drawNextSection_full cfg st numCenterLines =
     (case createSectionedPage_full cfg (pdfDoc st) of (doc, page) \<Rightarrow>
        (let st1 = st\<lparr>pdfDoc := doc, currentPage := Some page\<rparr>
         in case currentPage st1 of
              None \<Rightarrow> Inl CurrentPageUndefined
            | Some p \<Rightarrow>
                Inr (st1\<lparr>pdfDoc := (pdfDoc st1)
                           [p := drawSection (pdfDoc st1 ! p) 0 0
                                   (pageWidth cfg) (pageHeight cfg) numCenterLines]\<rparr>)))"

section \<open>The driver\<close>

text \<open>
  The inner \<^verbatim>\<open>for\<close> loop of the driver, from the current value of \<^verbatim>\<open>numCenterLines\<close> on;
  \<^verbatim>\<open>numCenterLines += skipInterval\<close> is an addition of doubles. Nothing bounds the
  number of its iterations, so it is a partial function: \<open>None\<close> is a loop that never
  ends, \<open>Some (Inl e)\<close> one that a thrown error leaves. The drawer is a parameter, as
  the driver takes it from \<^verbatim>\<open>createSectionDrawer\<close>.
\<close>

partial_function (option) rangeLoop ::
  "('s \<Rightarrow> int \<Rightarrow> error + 's) \<Rightarrow> int \<Rightarrow> int \<Rightarrow> int \<Rightarrow> 's \<Rightarrow> (error + 's) option" where
  "rangeLoop drawNextSection numCenterLines maxNumLines skipInterval st =
     (if numCenterLines \<le> maxNumLines then
        (case drawNextSection st numCenterLines of
           Inl e \<Rightarrow> Some (Inl e)
         | Inr st' \<Rightarrow>
             rangeLoop drawNextSection (dbl_int (numCenterLines + skipInterval))
               maxNumLines skipInterval st')
      else Some (Inr st))"

declare rangeLoop.simps [code]

text \<open>The outer \<^verbatim>\<open>for ... of\<close> loop over \<^verbatim>\<open>centerLines\<close>.\<close>

fun mainLoop ::
  "('s \<Rightarrow> int \<Rightarrow> error + 's) \<Rightarrow> CenterLineSection list \<Rightarrow> 's \<Rightarrow> (error + 's) option" where
  "mainLoop drawNextSection [] st = Some (Inr st)"
| "mainLoop drawNextSection (Fixed numLines # rest) st =
     (case drawNextSection st numLines of
        Inl e \<Rightarrow> Some (Inl e)
      | Inr st' \<Rightarrow> mainLoop drawNextSection rest st')"
| "mainLoop drawNextSection (Range minNumLines maxNumLines skipInterval # rest) st =
     (case rangeLoop drawNextSection minNumLines maxNumLines skipInterval st of
        None \<Rightarrow> None
      | Some (Inl e) \<Rightarrow> Some (Inl e)
      | Some (Inr st') \<Rightarrow> mainLoop drawNextSection rest st')"

text \<open>The script itself, up to the document it would serialise.\<close>

definition main_quad :: "LinesGeneratorConfig \<Rightarrow> (error + PDFDocument) option" where
  "main_quad cfg =
     map_option (map_sum id pdfDoc)
       (mainLoop (drawNextSection_quad cfg) (centerLines cfg)
          (createSectionDrawer PDFDocument_create))"

definition main_full :: "LinesGeneratorConfig \<Rightarrow> (error + PDFDocument) option" where
  "main_full cfg =
     map_option (map_sum id pdfDoc)
       (mainLoop (drawNextSection_full cfg) (centerLines cfg)
          (createSectionDrawer PDFDocument_create))"


text \<open>The configurations that the two variants ship.\<close>

definition config_quad :: LinesGeneratorConfig where
  "config_quad =
     \<lparr>centerLines = [Range 3 11 2, Range 15 23 4, Fixed 31, Fixed 39, Fixed 51, Fixed 65],
      pageHeight = 1054, pageWidth = 816\<rparr>"

definition config_full :: LinesGeneratorConfig where
  "config_full = \<lparr>centerLines = [Range 9 29 2], pageHeight = 1054, pageWidth = 816\<rparr>"

section \<open>Notions the properties are stated with\<close>

text \<open>
  \<open>foldLine\<close> is the options object that iteration \<open>k\<close> of the loop of \<^verbatim>\<open>drawSection\<close>
  passes to \<^verbatim>\<open>page.drawLine\<close>; \<open>drawnLines earlier later\<close> are the lines that were drawn
  on a page between two moments.
\<close>

definition foldLine :: "rat \<Rightarrow> rat \<Rightarrow> rat \<Rightarrow> number \<Rightarrow> nat \<Rightarrow> DrawLineOptions" where
  "foldLine x y height lineSpacing k =
     \<lparr>lineStart = \<lparr>px = num_add x (num_mul (of_nat k + 1) lineSpacing), py = Fin y\<rparr>,
      lineEnd = \<lparr>px = num_add x (num_mul (of_nat k + 1) lineSpacing),
                 py = round_double (y + height)\<rparr>,
      thickness = 0,
      dashArray = (if k mod 2 = 0 then [4, 2, 1, 2] else [4, 1])\<rparr>"

definition drawnLines :: "PDFPage \<Rightarrow> PDFPage \<Rightarrow> DrawLineOptions list" where
  "drawnLines earlier later = drop (length (content earlier)) (content later)"

text \<open>
  A sequence of \<^verbatim>\<open>drawNextSection\<close> calls, one for each count of a list, stopping at
  the first error as an exception would.
\<close>

fun feed :: "('s \<Rightarrow> int \<Rightarrow> error + 's) \<Rightarrow> int list \<Rightarrow> 's \<Rightarrow> error + 's" where
  "feed drawNextSection [] st = Inr st"
| "feed drawNextSection (n # ns) st =
     (case drawNextSection st n of
        Inl e \<Rightarrow> Inl e
      | Inr st' \<Rightarrow> feed drawNextSection ns st')"

text \<open>A drawer that draws nothing and records the counts it is called with.\<close>

definition recordCall :: "int list \<Rightarrow> int \<Rightarrow> error + int list" where
  "recordCall calls n = Inr (calls @ [n])"

text \<open>The origin that the specification gives the section of running index \<open>i\<close> on a
  page of width \<open>W\<close> and height \<open>H\<close>; \<open>half\<close> is the division by 2 of the doubles.\<close>

definition quadrantOrigin :: "rat \<Rightarrow> rat \<Rightarrow> nat \<Rightarrow> rat \<times> rat" where
  "quadrantOrigin W H i =
     (if i mod 4 = 0 then (0, half H)
      else if i mod 4 = 1 then (half W, half H)
      else if i mod 4 = 2 then (0, 0)
      else (half W, 0))"

text \<open>The invariant of the quadrant drawer: between the sections of one page,
  \<open>currentPage\<close> refers to the last page of the document.\<close>

definition currentIsLast :: "SectionDrawer \<Rightarrow> bool" where
  "currentIsLast st \<longleftrightarrow> pdfDoc st \<noteq> [] \<and> currentPage st = Some (length (pdfDoc st) - 1)"

definition quad_inv :: "SectionDrawer \<Rightarrow> bool" where
  "quad_inv st \<longleftrightarrow> (currentSectionIndex st mod 4 \<noteq> 0 \<longrightarrow> currentIsLast st)"

text \<open>
  The expansion of a range in the words of the specification: the arithmetic progression
  \<open>min, min + step, min + 2 * step, ...\<close> of the integers, cut before its first value above
  \<open>max\<close>. With a positive step no more than \<open>max - min + 1\<close> of its values can be at most
  \<open>max\<close>.
\<close>

definition progression :: "int \<Rightarrow> int \<Rightarrow> nat \<Rightarrow> int list" where
  "progression mn sk n = map (\<lambda>k. mn + int k * sk) [0..<n]"

definition truncated :: "int \<Rightarrow> int list \<Rightarrow> int list" where
  "truncated mx cs = takeWhile (\<lambda>c. c \<le> mx) cs"

definition expandRange :: "int \<Rightarrow> int \<Rightarrow> int \<Rightarrow> int list" where
  "expandRange mn mx sk = truncated mx (progression mn sk (nat (mx - mn + 1)))"

fun expandSection :: "CenterLineSection \<Rightarrow> int list" where
  "expandSection (Fixed n) = [n]"
| "expandSection (Range mn mx sk) = expandRange mn mx sk"

definition expandConfig :: "CenterLineSection list \<Rightarrow> int list" where
  "expandConfig cs = concat (map expandSection cs)"

text \<open>
  The ranges whose counts the doubles add exactly: a positive step, and every count from
  the minimum to the first one above the maximum within \<open>-2^53 .. 2^53\<close>. The sections
  whose expansion is shown to end: every fixed count, a range with its minimum above its
  maximum, and an exact range.
\<close>

definition exactRange :: "int \<Rightarrow> int \<Rightarrow> int \<Rightarrow> bool" where
  "exactRange mn mx sk \<longleftrightarrow> 0 < sk \<and> - (2 ^ 53) \<le> mn \<and> mx + sk \<le> 2 ^ 53"

fun rangeEnds :: "CenterLineSection \<Rightarrow> bool" where
  "rangeEnds (Fixed n) = True"
| "rangeEnds (Range mn mx sk) = (mx < mn \<or> exactRange mn mx sk)"

text \<open>
  Reading a document: the pages of a run (none if the run did not produce a document),
  the fold lines of a page (the lines with one of the two fold patterns; cut lines have
  the pattern \<open>[10, 10]\<close>), and the x-positions of the fold lines that lie in a region.
\<close>

definition pagesOf :: "(error + PDFDocument) option \<Rightarrow> PDFPage list" where
  "pagesOf r = (case r of Some (Inr doc) \<Rightarrow> doc | _ \<Rightarrow> [])"

definition foldLines :: "PDFPage \<Rightarrow> DrawLineOptions list" where
  "foldLines page =
     filter (\<lambda>l. dashArray l = [4, 2, 1, 2] \<or> dashArray l = [4, 1]) (content page)"

definition insideRegion :: "rat \<Rightarrow> rat \<Rightarrow> rat \<Rightarrow> rat \<Rightarrow> Point \<Rightarrow> bool" where
  "insideRegion x0 y0 w h p =
     (case (px p, py p) of
        (Fin a, Fin b) \<Rightarrow> x0 \<le> a \<and> a \<le> x0 + w \<and> y0 \<le> b \<and> b \<le> y0 + h
      | _ \<Rightarrow> False)"

definition regionLineXs :: "rat \<Rightarrow> rat \<Rightarrow> rat \<Rightarrow> rat \<Rightarrow> PDFPage \<Rightarrow> number list" where
  "regionLineXs x0 y0 w h page =
     map (\<lambda>l. px (lineStart l))
       (filter (\<lambda>l. insideRegion x0 y0 w h (lineStart l) \<and> insideRegion x0 y0 w h (lineEnd l))
          (foldLines page))"

text \<open>The configuration of the end-to-end example of the specification.\<close>

definition example_quad :: LinesGeneratorConfig where
  "example_quad = \<lparr>centerLines = [Fixed 3, Fixed 5], pageHeight = 1054, pageWidth = 816\<rparr>"

section \<open>Properties of the rounding\<close>

lemma rhe_of_int: "round_half_even (of_int n) = n"
  by (simp add: round_half_even_def)

lemma rhe_cases: "round_half_even u = \<lfloor>u\<rfloor> \<or> round_half_even u = \<lfloor>u\<rfloor> + 1"
  by (simp add: round_half_even_def Let_def)

lemma rhe_lower:
  assumes "of_int a \<le> u"
  shows "a \<le> round_half_even u"
proof -
  from assms have "a \<le> \<lfloor>u\<rfloor>" by (simp add: le_floor_iff)
  with rhe_cases [of u] show ?thesis by linarith
qed

lemma rhe_upper:
  assumes "u \<le> of_int b"
  shows "round_half_even u \<le> b"
proof (cases "\<lfloor>u\<rfloor> < b")
  case True
  with rhe_cases [of u] show ?thesis by linarith
next
  case False
  moreover from assms have "\<lfloor>u\<rfloor> \<le> b" by (simp add: floor_le_iff)
  ultimately have "\<lfloor>u\<rfloor> = b" by simp
  then have "of_int b \<le> u" by (metis of_int_floor_le)
  with assms have "u = of_int b" by simp
  then show ?thesis by (simp add: rhe_of_int)
qed

lemma rhe_near:
  assumes "\<bar>u - of_int m\<bar> < 1 / 2"
  shows "round_half_even u = m"
proof -
  from assms [unfolded abs_less_iff]
  have lo: "of_int m - 1 / 2 < u" and hi: "u < of_int m + 1 / 2"
    by linarith+
  show ?thesis
  proof (cases "of_int m \<le> u")
    case True
    have "\<lfloor>u\<rfloor> = m"
    proof (rule floor_unique)
      show "of_int m \<le> u" by (rule True)
      show "u < of_int m + 1" using hi by linarith
    qed
    moreover have "u - of_int m < 1 / 2" using hi by linarith
    ultimately show ?thesis by (simp add: round_half_even_def Let_def)
  next
    case False
    have m1: "(of_int (m - 1) :: rat) = of_int m - 1" by simp
    have f: "\<lfloor>u\<rfloor> = m - 1"
    proof (rule floor_unique)
      show "of_int (m - 1) \<le> u" unfolding m1 using lo by linarith
      show "u < of_int (m - 1) + 1" unfolding m1 using False by linarith
    qed
    have "1 / 2 < u - of_int (m - 1)" unfolding m1 using lo by linarith
    with f show ?thesis by (simp add: round_half_even_def Let_def)
  qed
qed

lemma rhe_tie_down:
  assumes "u = of_int m + 1 / 2" and "even m"
  shows "round_half_even u = m"
proof -
  have "\<lfloor>u\<rfloor> = m" unfolding assms(1) by (rule floor_unique) simp_all
  with assms show ?thesis by (simp add: round_half_even_def Let_def)
qed

lemma rhe_tie_up:
  assumes "u = of_int m - 1 / 2" and "even m"
  shows "round_half_even u = m"
proof -
  have f: "\<lfloor>u\<rfloor> = m - 1" unfolding assms(1) by (rule floor_unique) simp_all
  have "u - of_int (m - 1) = 1 / 2" unfolding assms(1) by simp
  with f assms(2) show ?thesis by (simp add: round_half_even_def Let_def)
qed

lemma exponent_lower:
  assumes "r \<noteq> 0"
  shows "2 powi exponent r \<le> \<bar>r\<bar>"
proof (cases "1 \<le> \<bar>r\<bar>")
  case True
  then have pos: "0 < \<lfloor>\<bar>r\<bar>\<rfloor>" by simp
  let ?k = "nat (bitlen \<lfloor>\<bar>r\<bar>\<rfloor> - 1)"
  from bitlen_bounds [OF pos] have "2 ^ ?k \<le> \<lfloor>\<bar>r\<bar>\<rfloor>" by simp
  then have "(of_int (2 ^ ?k) :: rat) \<le> of_int \<lfloor>\<bar>r\<bar>\<rfloor>" by (simp only: of_int_le_iff)
  also have "\<dots> \<le> \<bar>r\<bar>" by simp
  finally have "(2::rat) ^ ?k \<le> \<bar>r\<bar>" by simp
  moreover have "1 \<le> bitlen \<lfloor>\<bar>r\<bar>\<rfloor>" using pos by (auto simp: bitlen_alt_def)
  ultimately show ?thesis using True by (simp add: exponent_def power_int_def)
next
  case False
  then have lt: "\<bar>r\<bar> < 1" by simp
  have rpos: "0 < \<bar>r\<bar>" using assms by simp
  let ?x = "1 / \<bar>r\<bar>"
  let ?c = "\<lceil>?x\<rceil> - 1"
  have "1 < ?x" using lt rpos by simp
  then have cpos: "0 < ?c" by (simp add: less_ceiling_iff)
  let ?k = "nat (bitlen ?c)"
  from bitlen_bounds [OF cpos] have "?c < 2 ^ ?k" by simp
  then have "\<lceil>?x\<rceil> \<le> 2 ^ ?k" by simp
  then have "?x \<le> of_int (2 ^ ?k)" by (simp only: ceiling_le_iff)
  then have "?x \<le> 2 ^ ?k" by simp
  then have "1 \<le> \<bar>r\<bar> * 2 ^ ?k" using rpos by (simp add: field_simps)
  then have k: "1 / 2 ^ ?k \<le> \<bar>r\<bar>" by (simp add: field_simps)
  have "0 \<le> bitlen ?c" by (rule bitlen_nonneg)
  then have "2 powi (- bitlen ?c) = (1 / 2 ^ ?k :: rat)"
    by (simp add: power_int_def field_simps)
  with k False show ?thesis by (simp add: exponent_def)
qed

lemma exponent_upper:
  assumes "r \<noteq> 0"
  shows "\<bar>r\<bar> < 2 powi (exponent r + 1)"
proof (cases "1 \<le> \<bar>r\<bar>")
  case True
  then have pos: "0 < \<lfloor>\<bar>r\<bar>\<rfloor>" by simp
  let ?k = "nat (bitlen \<lfloor>\<bar>r\<bar>\<rfloor>)"
  from bitlen_bounds [OF pos] have "\<lfloor>\<bar>r\<bar>\<rfloor> < 2 ^ ?k" by simp
  then have "\<bar>r\<bar> < of_int (2 ^ ?k)" by (simp only: floor_less_iff)
  then have "\<bar>r\<bar> < 2 ^ ?k" by simp
  moreover have "0 \<le> bitlen \<lfloor>\<bar>r\<bar>\<rfloor>" by (rule bitlen_nonneg)
  ultimately show ?thesis using True by (simp add: exponent_def power_int_def)
next
  case False
  then have lt: "\<bar>r\<bar> < 1" by simp
  have rpos: "0 < \<bar>r\<bar>" using assms by simp
  let ?x = "1 / \<bar>r\<bar>"
  let ?c = "\<lceil>?x\<rceil> - 1"
  have "1 < ?x" using lt rpos by simp
  then have cpos: "0 < ?c" by (simp add: less_ceiling_iff)
  then have b1: "1 \<le> bitlen ?c" by (auto simp: bitlen_alt_def)
  let ?k = "nat (bitlen ?c - 1)"
  from bitlen_bounds [OF cpos] have "2 ^ ?k \<le> ?c" by simp
  then have "2 ^ ?k < \<lceil>?x\<rceil>" by simp
  then have "of_int (2 ^ ?k) < ?x" by (simp only: less_ceiling_iff)
  then have "2 ^ ?k < ?x" by simp
  then have "\<bar>r\<bar> * 2 ^ ?k < 1" using rpos by (simp add: field_simps)
  then have k: "\<bar>r\<bar> < 1 / 2 ^ ?k" by (simp add: field_simps)
  have "- bitlen ?c + 1 = - int ?k" using b1 by simp
  then have "(2::rat) powi (- bitlen ?c + 1) = 2 powi (- int ?k)" by (simp only:)
  also have "\<dots> = 1 / 2 ^ ?k" by (simp only: power_int_minus_divide power_int_of_nat)
  finally have "\<bar>r\<bar> < 2 powi (- bitlen ?c + 1)" using k by simp
  with False show ?thesis by (simp add: exponent_def)
qed

lemma pow2_mono: "m \<le> n \<Longrightarrow> (2::rat) powi m \<le> 2 powi n"
  by (rule power_int_increasing) simp_all

lemma pow2_less_cancel:
  assumes "(2::rat) powi m < 2 powi n"
  shows "m < n"
proof (rule ccontr)
  assume "\<not> m < n"
  then have "(2::rat) powi n \<le> 2 powi m" by (intro pow2_mono) simp
  with assms show False by simp
qed

lemma exponent_unique:
  assumes "2 powi e \<le> \<bar>r\<bar>" and "\<bar>r\<bar> < 2 powi (e + 1)"
  shows "exponent r = e"
proof -
  have "(0::rat) < 2 powi e" by simp
  with assms(1) have "0 < \<bar>r\<bar>" by linarith
  then have r: "r \<noteq> 0" by simp
  have "(2::rat) powi e < 2 powi (exponent r + 1)"
    using assms(1) exponent_upper [OF r] by linarith
  then have "e < exponent r + 1" by (rule pow2_less_cancel)
  moreover have "(2::rat) powi exponent r < 2 powi (e + 1)"
    using assms(2) exponent_lower [OF r] by linarith
  then have "exponent r < e + 1" by (rule pow2_less_cancel)
  ultimately show ?thesis by simp
qed

lemma round_finite_eval:
  assumes "2 powi e \<le> \<bar>r\<bar>" and "\<bar>r\<bar> < 2 powi (e + 1)"
    and "q = max (e - 52) (- 1074)"
    and "round_half_even (r / 2 powi q) = m"
  shows "round_finite r = of_int m * 2 powi q"
proof -
  have "(0::rat) < 2 powi e" by simp
  with assms(1) have "0 < \<bar>r\<bar>" by linarith
  then have r: "r \<noteq> 0" by simp
  from exponent_unique [OF assms(1,2)] assms(3) have "quantum r = q"
    by (simp add: quantum_def)
  with r assms(4) show ?thesis by (simp add: round_finite_def)
qed

lemma round_finite_exact:
  assumes "\<bar>n\<bar> \<le> 2 ^ 53" and "- 1074 \<le> g"
  shows "round_finite (of_int n * 2 powi g) = of_int n * 2 powi g"
proof (cases "n = 0")
  case True
  then show ?thesis by (simp add: round_finite_def)
next
  case False
  let ?r = "of_int n * 2 powi g :: rat"
  have r: "?r \<noteq> 0" using False by simp
  have absr: "\<bar>?r\<bar> = of_int \<bar>n\<bar> * 2 powi g" by (simp add: abs_mult)
  let ?q = "quantum ?r"
  have "\<exists>k. ?r / 2 powi ?q = of_int k"
  proof (cases "\<bar>n\<bar> = 2 ^ 53")
    case True
    then have "\<bar>?r\<bar> = 2 powi (53 + g)"
      unfolding absr by (simp add: power_int_add)
    then have "exponent ?r = 53 + g"
      by (intro exponent_unique) (simp_all add: power_int_add)
    with assms(2) have q: "?q = g + 1" by (simp add: quantum_def)
    have "n = 2 ^ 53 \<or> n = - (2 ^ 53)" using True by linarith
    then have "?r / 2 powi (g + 1) = of_int (n div 2)"
      by (auto simp: power_int_add)
    with q show ?thesis by metis
  next
    case lt: False
    with assms(1) have n: "\<bar>n\<bar> < 2 ^ 53" by simp
    have "2 powi exponent ?r \<le> \<bar>?r\<bar>" by (rule exponent_lower [OF r])
    also have "\<bar>?r\<bar> < 2 powi (53 + g)"
    proof -
      have "(of_int \<bar>n\<bar> :: rat) < of_int (2 ^ 53)" using n by (simp only: of_int_less_iff)
      then have "(of_int \<bar>n\<bar> :: rat) * 2 powi g < 2 ^ 53 * 2 powi g"
        by (intro mult_strict_right_mono) simp_all
      then show ?thesis unfolding absr by (simp add: power_int_add)
    qed
    finally have "exponent ?r < 53 + g" by (rule pow2_less_cancel)
    with assms(2) have q: "?q \<le> g" by (simp add: quantum_def)
    define q where "q = ?q"
    define d where "d = nat (g - q)"
    have "g = q + int d" using q by (simp add: d_def q_def)
    then have pg: "(2::rat) powi g = 2 powi q * 2 ^ d"
      by (simp add: power_int_add)
    have "of_int n * 2 powi g / 2 powi q = (of_int (n * 2 ^ d) :: rat)"
      unfolding pg by simp
    then show ?thesis unfolding q_def by metis
  qed
  then obtain k where k: "?r / 2 powi ?q = of_int k" by blast
  then have "?r = of_int k * 2 powi ?q" by (simp add: field_simps)
  with r k show ?thesis by (simp add: round_finite_def rhe_of_int)
qed


lemma round_double_alt:
  "round_double r =
     (if 2 ^ 1024 \<le> \<bar>round_finite r\<bar> then NonFinite else Fin (round_finite r))"
proof (cases "round_finite r = 0")
  case True
  then show ?thesis by (simp add: round_double_def)
next
  case False
  let ?v = "round_finite r"
  have "1024 \<le> exponent ?v \<longleftrightarrow> 2 ^ 1024 \<le> \<bar>?v\<bar>"
  proof
    assume "1024 \<le> exponent ?v"
    then have "(2::rat) powi 1024 \<le> 2 powi exponent ?v" by (rule pow2_mono)
    also have "\<dots> \<le> \<bar>?v\<bar>" by (rule exponent_lower [OF False])
    finally show "2 ^ 1024 \<le> \<bar>?v\<bar>" by simp
  next
    assume "2 ^ 1024 \<le> \<bar>?v\<bar>"
    then have "(2::rat) powi 1024 \<le> \<bar>?v\<bar>" by simp
    also have "\<bar>?v\<bar> < 2 powi (exponent ?v + 1)" by (rule exponent_upper [OF False])
    finally have "1024 < exponent ?v + 1" by (rule pow2_less_cancel)
    then show "1024 \<le> exponent ?v" by simp
  qed
  with False show ?thesis by (simp add: round_double_def Let_def)
qed

lemma round_finite_of_int:
  assumes "\<bar>n\<bar> \<le> 2 ^ 53"
  shows "round_finite (of_int n) = of_int n"
  using round_finite_exact [OF assms, of 0] by simp

lemma dbl_int_exact: "\<bar>n\<bar> \<le> 2 ^ 53 \<Longrightarrow> dbl_int n = n"
  by (simp add: dbl_int_def round_finite_of_int)

lemma quantum_small:
  assumes "0 < r" and "r \<le> 2 ^ 20"
  shows "quantum r \<le> - 32"
proof -
  have "2 powi exponent r \<le> \<bar>r\<bar>" using assms(1) by (intro exponent_lower) simp
  also have "\<bar>r\<bar> < 2 powi 21" using assms by simp
  finally have "exponent r < 21" by (rule pow2_less_cancel)
  then show ?thesis by (simp add: quantum_def)
qed

lemma grid_multiple:
  assumes "q \<le> - 32"
  shows "of_int h / 2 ^ 32 = (of_int (h * 2 ^ nat (- 32 - q)) :: rat) * 2 powi q"
proof -
  define d where "d = nat (- 32 - q)"
  have "- 32 = q + int d" using assms by (simp add: d_def)
  then have "(2::rat) powi (- 32) = 2 powi (q + int d)" by (simp only:)
  then have p: "(2::rat) powi (- 32) = 2 powi q * 2 ^ d" by (simp add: power_int_add)
  have "(of_int h / 2 ^ 32 :: rat) = of_int h * 2 powi (- 32)"
    by (simp add: power_int_minus_divide)
  also have "\<dots> = of_int h * (2 powi q * 2 ^ d)" by (simp only: p)
  also have "\<dots> = of_int (h * 2 ^ d) * 2 powi q" by (simp add: mult_ac)
  finally show ?thesis by (simp only: d_def)
qed

lemma round_finite_le_grid:
  assumes "0 \<le> r" and "r \<le> of_int h / 2 ^ 32" and "of_int h / 2 ^ 32 \<le> (2 ^ 20 :: rat)"
  shows "round_finite r \<le> of_int h / 2 ^ 32"
proof (cases "r = 0")
  case True
  with assms show ?thesis by (simp add: round_finite_def)
next
  case False
  with assms have pos: "0 < r" and le: "r \<le> 2 ^ 20" by simp_all
  define q where "q = quantum r"
  have q: "q \<le> - 32" unfolding q_def by (rule quantum_small [OF pos le])
  define H where "H = h * 2 ^ nat (- 32 - q)"
  have hi: "of_int h / 2 ^ 32 = (of_int H :: rat) * 2 powi q"
    unfolding H_def by (rule grid_multiple [OF q])
  have "r / 2 powi q \<le> of_int H"
    using assms(2) unfolding hi by (simp add: field_simps)
  then have "round_half_even (r / 2 powi q) \<le> H" by (rule rhe_upper)
  then have "(of_int (round_half_even (r / 2 powi q)) :: rat) \<le> of_int H"
    by (simp only: of_int_le_iff)
  then have "of_int (round_half_even (r / 2 powi q)) * 2 powi q \<le> (of_int H :: rat) * 2 powi q"
    by (intro mult_right_mono) simp_all
  with False show ?thesis unfolding hi by (simp add: round_finite_def q_def)
qed

lemma round_finite_ge_grid:
  assumes "of_int l / 2 ^ 32 \<le> r" and "0 < r" and "r \<le> (2 ^ 20 :: rat)"
  shows "of_int l / 2 ^ 32 \<le> round_finite r"
proof -
  define q where "q = quantum r"
  have q: "q \<le> - 32" unfolding q_def by (rule quantum_small [OF assms(2,3)])
  define L where "L = l * 2 ^ nat (- 32 - q)"
  have lo: "of_int l / 2 ^ 32 = (of_int L :: rat) * 2 powi q"
    unfolding L_def by (rule grid_multiple [OF q])
  have "of_int L \<le> r / 2 powi q"
    using assms(1) unfolding lo by (simp add: field_simps)
  then have "L \<le> round_half_even (r / 2 powi q)" by (rule rhe_lower)
  then have "(of_int L :: rat) \<le> of_int (round_half_even (r / 2 powi q))"
    by (simp only: of_int_le_iff)
  then have "(of_int L :: rat) * 2 powi q \<le> of_int (round_half_even (r / 2 powi q)) * 2 powi q"
    by (intro mult_right_mono) simp_all
  with assms(2) show ?thesis unfolding lo by (simp add: round_finite_def q_def)
qed


lemma round_finite_error:
  assumes "0 < r" and "r \<le> (2 ^ 20 :: rat)"
  shows "r - 1 / 2 ^ 32 < round_finite r" and "round_finite r < r + 1 / 2 ^ 32"
proof -
  let ?l = "\<lfloor>r * 2 ^ 32\<rfloor>" and ?h = "\<lceil>r * 2 ^ 32\<rceil>"
  have "of_int ?l \<le> r * 2 ^ 32" by simp
  then have l: "of_int ?l / 2 ^ 32 \<le> r" by (simp add: field_simps)
  have "r * 2 ^ 32 < of_int ?l + 1" by linarith
  then have l': "r - 1 / 2 ^ 32 < of_int ?l / 2 ^ 32" by (simp add: field_simps)
  from round_finite_ge_grid [OF l assms] l' show "r - 1 / 2 ^ 32 < round_finite r"
    by linarith
  have "r * 2 ^ 32 \<le> of_int ?h" by simp
  then have h: "r \<le> of_int ?h / 2 ^ 32" by (simp add: field_simps)
  have "of_int ?h < r * 2 ^ 32 + 1" by linarith
  then have h': "of_int ?h / 2 ^ 32 < r + 1 / 2 ^ 32" by (simp add: field_simps)
  have "r * 2 ^ 32 \<le> of_int (2 ^ 52)" using assms(2) by simp
  then have "?h \<le> 2 ^ 52" by (simp only: ceiling_le_iff)
  then have "(of_int ?h :: rat) \<le> of_int (2 ^ 52)" by (simp only: of_int_le_iff)
  then have h2: "of_int ?h / 2 ^ 32 \<le> (2 ^ 20 :: rat)" by simp
  from round_finite_le_grid [OF _ h h2] assms(1) h' show "round_finite r < r + 1 / 2 ^ 32"
    by simp
qed

lemma round_double_small:
  assumes "0 < r" and "r \<le> (2 ^ 20 :: rat)"
  shows "round_double r = Fin (round_finite r)"
proof -
  from round_finite_error [OF assms] assms
  have "0 - 1 < round_finite r" "round_finite r < 2 ^ 20 + 1" by simp_all
  then have "\<bar>round_finite r\<bar> < 2 ^ 20 + 1" by simp
  also have "(2 ^ 20 + 1 :: rat) < 2 ^ 1024" by simp
  finally show ?thesis by (simp add: round_double_alt)
qed

lemma lineX_inside:
  fixes x0 W K M :: rat
  assumes x0: "0 \<le> x0" and W: "1 \<le> W" and far: "x0 + W \<le> 2 ^ 20"
    and K: "1 \<le> K" "K + 1 \<le> M" and M: "M \<le> 2 ^ 15"
  defines "s \<equiv> round_finite (W / M)"
  defines "p \<equiv> round_finite (K * s)"
  defines "lx \<equiv> round_finite (x0 + p)"
  shows "round_double (W / M) = Fin s" and "round_double (K * s) = Fin p"
    and "round_double (x0 + p) = Fin lx" and "x0 < lx" and "lx < x0 + W"
proof -
  define e :: rat where "e = 1 / 2 ^ 32"
  define t where "t = W / M"
  have far': "x0 + W \<le> 1048576" using far by simp
  have M': "M \<le> 32768" using M by simp
  have Mpos: "0 < M" using K by linarith
  have t_lo: "1 / 32768 \<le> t"
  proof -
    have "1 / 32768 \<le> 1 / M" using M' Mpos by (simp add: field_simps)
    also have "\<dots> \<le> W / M" using W Mpos by (simp add: field_simps)
    finally show ?thesis by (simp add: t_def)
  qed
  have t_hi: "t \<le> W"
  proof -
    have "1 \<le> M" using K by linarith
    then show ?thesis using W by (simp add: t_def field_simps)
  qed
  have tM: "t * M = W" using Mpos by (simp add: t_def)
  have tpos: "0 < t" using t_lo by linarith
  have t20: "t \<le> 2 ^ 20" using t_hi far' x0 by simp
  from round_finite_error [OF tpos t20]
  have s: "t - e < s" "s < t + e" by (simp_all add: s_def t_def e_def)
  have epos: "0 < e" by (simp add: e_def)
  have e_small: "e < 1 / 131072" by (simp add: e_def)
  have spos: "0 < s" using s(1) t_lo e_small by linarith
  have P_lo: "s \<le> K * s" using K(1) spos by simp
  have Ke: "K * e + 3 * e < 1 / 32768"
  proof -
    have "K * e \<le> 32767 * e" using K M' epos by (intro mult_right_mono) simp_all
    moreover have "32767 * e + 3 * e < 1 / 32768" by (simp add: e_def)
    ultimately show ?thesis by linarith
  qed
  have P_hi: "K * s < W - t + K * e"
  proof -
    have "K * s < K * (t + e)" using s(2) K(1) by (intro mult_strict_left_mono) simp_all
    also have "\<dots> = K * t + K * e" by (simp add: algebra_simps)
    also have "K * t \<le> (M - 1) * t" using K(2) tpos by (intro mult_right_mono) simp_all
    also have "(M - 1) * t = W - t" using tM by (simp add: algebra_simps)
    finally show ?thesis by simp
  qed
  have Ppos: "0 < K * s" using P_lo spos by linarith
  have "K * s \<le> 1048576" using P_hi Ke t_lo far' x0 epos by linarith
  then have P20: "K * s \<le> 2 ^ 20" by simp
  from round_finite_error [OF Ppos P20]
  have p: "K * s - e < p" "p < K * s + e" by (simp_all add: p_def e_def)
  have ppos: "0 < p" using p(1) P_lo s(1) t_lo e_small by linarith
  have X_hi: "x0 + p < x0 + W - t + K * e + e" using p(2) P_hi by linarith
  have Xpos: "0 < x0 + p" using x0 ppos by simp
  have "x0 + p \<le> 1048576" using X_hi Ke t_lo far' epos by linarith
  then have X20: "x0 + p \<le> 2 ^ 20" by simp
  from round_finite_error [OF Xpos X20]
  have lx: "x0 + p - e < lx" "lx < x0 + p + e" by (simp_all add: lx_def e_def)
  show "round_double (W / M) = Fin s"
    unfolding s_def using round_double_small [OF tpos t20] by (simp add: t_def)
  show "round_double (K * s) = Fin p"
    unfolding p_def by (rule round_double_small [OF Ppos P20])
  show "round_double (x0 + p) = Fin lx"
    unfolding lx_def by (rule round_double_small [OF Xpos X20])
  show "x0 < lx" using lx(1) p(1) P_lo s(1) t_lo e_small by linarith
  show "lx < x0 + W" using lx(2) X_hi Ke t_lo epos by linarith
qed

lemma round_finite_near:
  assumes "2 powi e \<le> \<bar>r\<bar>" and "\<bar>r\<bar> < 2 powi (e + 1)"
    and "\<bar>r / 2 powi (max (e - 52) (- 1074)) - of_int m\<bar> < 1 / 2"
  shows "round_finite r = of_int m * 2 powi (max (e - 52) (- 1074))"
  by (rule round_finite_eval [OF assms(1,2) refl rhe_near [OF assms(3)]])

lemma round_finite_tie_down:
  assumes "2 powi e \<le> \<bar>r\<bar>" and "\<bar>r\<bar> < 2 powi (e + 1)"
    and "r / 2 powi (max (e - 52) (- 1074)) = of_int m + 1 / 2" and "even m"
  shows "round_finite r = of_int m * 2 powi (max (e - 52) (- 1074))"
  by (rule round_finite_eval [OF assms(1,2) refl rhe_tie_down [OF assms(3,4)]])

lemma round_finite_tie_up:
  assumes "2 powi e \<le> \<bar>r\<bar>" and "\<bar>r\<bar> < 2 powi (e + 1)"
    and "r / 2 powi (max (e - 52) (- 1074)) = of_int m - 1 / 2" and "even m"
  shows "round_finite r = of_int m * 2 powi (max (e - 52) (- 1074))"
  by (rule round_finite_eval [OF assms(1,2) refl rhe_tie_up [OF assms(3,4)]])

lemma round_double_finite:
  "\<bar>round_finite r\<bar> < 2 ^ 1024 \<Longrightarrow> round_double r = Fin (round_finite r)"
  by (simp add: round_double_alt)

lemma round_double_exact:
  assumes "\<bar>n\<bar> \<le> 2 ^ 53" and "- 1074 \<le> g" and "g \<le> 970"
  shows "round_double (of_int n * 2 powi g) = Fin (of_int n * 2 powi g)"
proof -
  have "\<bar>of_int n * 2 powi g :: rat\<bar> = of_int \<bar>n\<bar> * 2 powi g" by (simp add: abs_mult)
  also have "\<dots> \<le> of_int (2 ^ 53) * 2 powi g"
    using assms(1) by (intro mult_right_mono) (simp_all only: of_int_le_iff, simp)
  also have "\<dots> = 2 powi (53 + g)" by (simp add: power_int_add)
  also have "\<dots> \<le> 2 powi 1023" using assms(3) by (intro pow2_mono) simp
  also have "\<dots> < (2::rat) ^ 1024" by simp
  finally show ?thesis
    by (simp add: round_double_finite round_finite_exact [OF assms(1,2)])
qed

lemma round_double_of_int: "\<bar>n\<bar> \<le> 2 ^ 53 \<Longrightarrow> round_double (of_int n) = Fin (of_int n)"
  using round_double_exact [of n 0] by simp

section \<open>Properties of drawSection\<close>

text \<open>The loop appends one line for each index from \<open>lineIndex\<close> up to the count, in
  order, and touches nothing else of the page.\<close>

lemma drawSectionLoop_content:
  "drawSectionLoop page x y height N s i =
     page\<lparr>content := content page @ map (foldLine x y height s) [i..<nat N]\<rparr>"
proof (induction page x y height N s i rule: drawSectionLoop.induct)
  case (1 page x y height N s i)
  show ?case
  proof (cases "int i < N")
    case False
    then have "[i..<nat N] = []" by simp
    with False show ?thesis by (simp add: drawSectionLoop.simps [of page])
  next
    case True
    then have upt: "[i..<nat N] = i # [i + 1..<nat N]"
      by (simp add: upt_conv_Cons)
    show ?thesis
    proof (cases "i mod 2 = 0")
      case even: True
      from "1.IH"(1) [OF True refl refl refl even] True even upt show ?thesis
        by (simp add: drawSectionLoop.simps [of page] drawLine_def foldLine_def Let_def)
    next
      case odd: False
      from "1.IH"(2) [OF True refl refl refl odd] True odd upt show ?thesis
        by (simp add: drawSectionLoop.simps [of page] drawLine_def foldLine_def Let_def)
    qed
  qed
qed

lemma drawSection_content:
  "drawSection page x y width height N =
     page\<lparr>content := content page @
       map (foldLine x y height (num_div width (of_int (dbl_int (N + 1))))) [0..<nat N]\<rparr>"
  by (simp add: drawSection_def drawSectionLoop_content)

lemma drawnLines_drawSection:
  "drawnLines page (drawSection page x y width height N) =
     map (foldLine x y height (num_div width (of_int (dbl_int (N + 1))))) [0..<nat N]"
  by (simp add: drawnLines_def drawSection_content)

lemma pageSize_drawSection: "pageSize (drawSection page x y width height N) = pageSize page"
  by (simp add: drawSection_content)

text \<open>
  Claim C1, as amended. In a section drawn with a line count \<open>1 \<le> N \<le> 2^53\<close>, origin
  \<open>(x0, y0)\<close>, width \<open>W\<close> and height \<open>h\<close>, the \<open>k\<close>-th line drawn (counting from 0, \<open>k < N\<close>) is the
  \<open>k\<close>-th entry that \<^verbatim>\<open>drawSection\<close> adds to the page. It is a vertical segment: it starts
  at \<open>y0\<close> and ends at the double \<open>y0 + h\<close>, at the x-position that the doubles give
  \<open>x0 + (k+1) * (W / (N+1))\<close>: the sum \<open>N + 1\<close>, the quotient, the product and the sum
  rounded one after the other. Where \<open>N < 2^53\<close> and the quotient, the product and the
  sum are doubles as they are, this is \<open>x0 + (k+1) * W / (N+1)\<close> itself.
\<close>

theorem drawSection_line_position:
  assumes "1 \<le> N" and "N \<le> 2 ^ 53" and "k < nat N"
  shows "content (drawSection page x0 y0 W h N) ! (length (content page) + k) =
           drawnLines page (drawSection page x0 y0 W h N) ! k
         \<and> lineStart (drawnLines page (drawSection page x0 y0 W h N) ! k) =
             \<lparr>px = num_add x0 (num_mul (of_nat k + 1) (num_div W (of_int (dbl_int (N + 1))))),
              py = Fin y0\<rparr>
         \<and> lineEnd (drawnLines page (drawSection page x0 y0 W h N) ! k) =
             \<lparr>px = num_add x0 (num_mul (of_nat k + 1) (num_div W (of_int (dbl_int (N + 1))))),
              py = round_double (y0 + h)\<rparr>
         \<and> (N < 2 ^ 53
              \<and> is_double (W / (of_int N + 1))
              \<and> is_double ((of_nat k + 1) * (W / (of_int N + 1)))
              \<and> is_double (x0 + (of_nat k + 1) * (W / (of_int N + 1)))
            \<longrightarrow> px (lineStart (drawnLines page (drawSection page x0 y0 W h N) ! k)) =
                  Fin (x0 + (of_nat k + 1) * W / (of_int N + 1)))"
proof -
  let ?s = "num_div W (of_int (dbl_int (N + 1)))"
  have nth: "drawnLines page (drawSection page x0 y0 W h N) ! k = foldLine x0 y0 h ?s k"
    using assms by (simp add: drawnLines_drawSection)
  have c: "content (drawSection page x0 y0 W h N) ! (length (content page) + k) =
      drawnLines page (drawSection page x0 y0 W h N) ! k"
    using assms by (simp add: drawnLines_def drawSection_content)
  have exact: "px (lineStart (foldLine x0 y0 h ?s k)) =
      Fin (x0 + (of_nat k + 1) * W / (of_int N + 1))"
    if N: "N < 2 ^ 53"
      and q: "is_double (W / (of_int N + 1))"
      and p: "is_double ((of_nat k + 1) * (W / (of_int N + 1)))"
      and s: "is_double (x0 + (of_nat k + 1) * (W / (of_int N + 1)))"
  proof -
    from assms(1) N have "dbl_int (N + 1) = N + 1" by (intro dbl_int_exact) simp
    moreover from assms(1) have "(of_int N + 1 :: rat) \<noteq> 0"
      by (metis add_nonneg_eq_0_iff of_int_0_le_iff zero_le_one zero_neq_one order_trans)
    ultimately have "?s = Fin (W / (of_int N + 1))"
      using q by (simp add: num_div_def is_double_def)
    with p s show ?thesis by (simp add: foldLine_def is_double_def)
  qed
  from c exact show ?thesis by (simp add: nth foldLine_def)
qed

text \<open>The second of the three lines of a top-left quadrant of the shipped page size;
  nothing is rounded there.\<close>

theorem drawSection_line_position_witness:
  "(1::int) \<le> 3 \<and> (3::int) \<le> 2 ^ 53 \<and> (1::nat) < nat 3
   \<and> (3::int) < 2 ^ 53
   \<and> is_double (408 / (of_int 3 + 1))
   \<and> is_double ((of_nat 1 + 1) * (408 / (of_int 3 + 1)))
   \<and> is_double (0 + (of_nat 1 + 1) * (408 / (of_int 3 + 1)))
   \<and> px (lineStart (drawnLines newPage (drawSection newPage 0 527 408 527 3) ! 1)) =
       Fin (0 + (of_nat 1 + 1) * 408 / (of_int 3 + 1))
   \<and> lineEnd (drawnLines newPage (drawSection newPage 0 527 408 527 3) ! 1) =
       \<lparr>px = Fin 204, py = Fin 1054\<rparr>"
proof -
  have n: "dbl_int 4 = 4" by (rule dbl_int_exact) simp
  have d: "round_double 102 = Fin 102" "round_double 204 = Fin 204"
    "round_double 1054 = Fin 1054"
    using round_double_of_int [of 102] round_double_of_int [of 204]
      round_double_of_int [of 1054]
    by simp_all
  from drawSection_line_position [of 3 1 newPage 0 527 408 527] show ?thesis
    by (simp add: is_double_def num_div_def n d)
qed

text \<open>
  Claim C1 as stated fails. The third line (\<open>k = 2\<close>) of a section of width 408 with 9
  lines, as the shipped quadrant configuration draws it, is at 122.39999999999999...,
  the double \<open>8613134287346073 / 2^46\<close>. That is neither \<open>x0 + (k+1) * W / (N+1) = 612/5\<close>
  nor the double nearest to it, \<open>8613134287346074 / 2^46\<close>.
\<close>

theorem drawSection_line_position_rounded:
  "px (lineStart (drawnLines newPage (drawSection newPage 0 527 408 527 9) ! 2)) =
     Fin (8613134287346073 / 70368744177664)
   \<and> (8613134287346073 / 70368744177664 :: rat) \<noteq> 0 + (2 + 1) * 408 / (9 + 1)
   \<and> round_double (0 + (2 + 1) * 408 / (9 + 1)) = Fin (8613134287346074 / 70368744177664)"
proof -
  have n: "dbl_int 10 = 10" by (rule dbl_int_exact) simp
  have "round_finite (408 / 10) = of_int 5742089524897382 * 2 powi (max (5 - 52) (- 1074))"
    by (rule round_finite_near) simp_all
  then have q: "round_double (204 / 5) = Fin (2871044762448691 / 70368744177664)"
    by (simp add: round_double_finite)
  have p: "round_double (8613134287346073 / 70368744177664) =
      Fin (8613134287346073 / 70368744177664)"
    using round_double_exact [of 8613134287346073 "- 46"] by simp
  have "round_finite (612 / 5) = of_int 8613134287346074 * 2 powi (max (6 - 52) (- 1074))"
    by (rule round_finite_near) simp_all
  then have c: "round_double (612 / 5) = Fin (8613134287346074 / 70368744177664)"
    by (simp add: round_double_finite)
  have "drawnLines newPage (drawSection newPage 0 527 408 527 9) ! 2 =
      foldLine 0 527 527 (num_div 408 (of_int (dbl_int (9 + 1)))) 2"
    by (simp add: drawnLines_drawSection numeral_2_eq_2)
  then have "px (lineStart (drawnLines newPage (drawSection newPage 0 527 408 527 9) ! 2)) =
      Fin (8613134287346073 / 70368744177664)"
    by (simp add: foldLine_def n num_div_def q p)
  with c show ?thesis by simp
qed



text \<open>
  Claim C8, as amended. In a section of origin \<open>x0 \<ge> 0\<close> and width \<open>W \<ge> 1\<close> that ends
  at most at \<open>x0 + W = 2^20 = 1048576\<close>, with a line count \<open>0 \<le> N < 2^15 = 32768\<close>, every
  line drawn is vertical at a finite x-position \<open>lx\<close> with \<open>x0 < lx < x0 + W\<close>: no line
  lies on the left or the right border of the section. (Within these bounds each of the
  three roundings moves a value by less than \<open>2^-32\<close>, and the lines are at least
  \<open>2^-15\<close> apart and away from the borders.)
\<close>

theorem drawSection_lines_inside:
  assumes "0 \<le> x0" and "1 \<le> W" and "x0 + W \<le> 2 ^ 20" and "0 \<le> N" and "N < 2 ^ 15"
  shows "\<forall>l \<in> set (drawnLines page (drawSection page x0 y0 W h N)).
           \<exists>lx. px (lineStart l) = Fin lx \<and> px (lineEnd l) = Fin lx
                \<and> x0 < lx \<and> lx < x0 + W"
proof
  fix l assume "l \<in> set (drawnLines page (drawSection page x0 y0 W h N))"
  then obtain k where k: "k < nat N"
    and l: "l = foldLine x0 y0 h (num_div W (of_int (dbl_int (N + 1)))) k"
    by (auto simp: drawnLines_drawSection)
  define K :: rat where "K = of_nat k + 1"
  define M :: rat where "M = of_int (N + 1)"
  have n: "dbl_int (N + 1) = N + 1" using assms(4,5) by (intro dbl_int_exact) simp
  have K1: "1 \<le> K" by (simp add: K_def)
  have "int k + 2 \<le> N + 1" using k by linarith
  then have "(of_int (int k + 2) :: rat) \<le> of_int (N + 1)" by (simp only: of_int_le_iff)
  then have K2: "K + 1 \<le> M" by (simp add: K_def M_def)
  have "N + 1 \<le> 2 ^ 15" using assms(5) by simp
  then have "(of_int (N + 1) :: rat) \<le> of_int (2 ^ 15)" by (simp only: of_int_le_iff)
  then have M15: "M \<le> 2 ^ 15" by (simp add: M_def)
  have M0: "M \<noteq> 0" using K1 K2 by linarith
  let ?s = "round_finite (W / M)"
  let ?p = "round_finite (K * ?s)"
  let ?lx = "round_finite (x0 + ?p)"
  note inside = lineX_inside [OF assms(1-3) K1 K2 M15]
  have "num_add x0 (num_mul K (num_div W M)) = Fin ?lx"
    using M0 inside(1-3) by (simp add: num_div_def)
  then have "px (lineStart l) = Fin ?lx" "px (lineEnd l) = Fin ?lx"
    by (simp_all add: l foldLine_def n K_def M_def)
  with inside(4,5) show "\<exists>lx. px (lineStart l) = Fin lx \<and> px (lineEnd l) = Fin lx
                \<and> x0 < lx \<and> lx < x0 + W" by blast
qed

text \<open>The five lines of a top-right quadrant of the shipped page size.\<close>

theorem drawSection_lines_inside_witness:
  "(0::rat) \<le> 408 \<and> (1::rat) \<le> 408 \<and> (408 + 408 :: rat) \<le> 2 ^ 20
   \<and> (0::int) \<le> 5 \<and> (5::int) < 2 ^ 15
   \<and> length (drawnLines newPage (drawSection newPage 408 527 408 527 5)) = 5
   \<and> list_all (\<lambda>l. \<exists>lx. px (lineStart l) = Fin lx \<and> px (lineEnd l) = Fin lx
                        \<and> 408 < lx \<and> lx < 408 + 408)
       (drawnLines newPage (drawSection newPage 408 527 408 527 5))"
  using drawSection_lines_inside [of 408 408 5 newPage 527 527]
  by (simp add: list_all_iff drawnLines_drawSection)

text \<open>
  Claim C8 as stated fails. With origin \<open>x0 = 2^53\<close>, width 1 and one line, the line is
  at \<open>2^53 + 1/2\<close>, which the doubles round to \<open>2^53\<close>: it lies on the left border. So
  does the first of \<open>10^17\<close> lines in a top-right quadrant of the shipped page size
  (\<open>x0 = 408\<close>, \<open>W = 408\<close>), and the one line of a section of width \<open>2^-1074\<close>, the
  smallest double above 0, whose half is rounded to 0.
\<close>

theorem drawSection_line_on_border:
  "(0::rat) < 1 \<and> (0::int) \<le> 1
   \<and> length (drawnLines newPage (drawSection newPage (2 ^ 53) 0 1 1 1)) = 1
   \<and> px (lineStart (drawnLines newPage (drawSection newPage (2 ^ 53) 0 1 1 1) ! 0)) =
       Fin (2 ^ 53)
   \<and> px (lineStart (drawnLines newPage (drawSection newPage 408 527 408 527 (10 ^ 17)) ! 0)) =
       Fin 408
   \<and> (0::rat) < 1 / 2 ^ 1074
   \<and> px (lineStart (drawnLines newPage (drawSection newPage 0 0 (1 / 2 ^ 1074) 1 1) ! 0)) =
       Fin 0"
proof -
  have n2: "dbl_int 2 = 2" by (rule dbl_int_exact) simp
  have h: "round_double (1 / 2) = Fin (1 / 2)"
    using round_double_exact [of 1 "- 1"] by simp
  have "round_finite (18014398509481985 / 2) =
      of_int 4503599627370496 * 2 powi (max (53 - 52) (- 1074))"
    by (rule round_finite_near) simp_all
  then have a: "round_double (18014398509481985 / 2) = Fin 9007199254740992"
    by (simp add: round_double_finite)
  have first: "px (lineStart (drawnLines newPage (drawSection newPage (2 ^ 53) 0 1 1 1) ! 0)) =
       Fin (2 ^ 53)"
    by (simp add: drawnLines_drawSection foldLine_def n2 num_div_def h a)
  have "round_finite (of_int (10 ^ 17 + 1)) =
      of_int 6250000000000000 * 2 powi (max (56 - 52) (- 1074))"
    by (rule round_finite_near) simp_all
  then have n17: "dbl_int 100000000000000001 = 100000000000000000"
    by (simp add: dbl_int_def)
  have "round_finite (408 / 10 ^ 17) =
      of_int 5172014448931176 * 2 powi (max (- 48 - 52) (- 1074))"
    by (rule round_finite_near) simp_all
  then have q: "round_double (51 / 12500000000000000) =
      Fin (646501806116397 / 158456325028528675187087900672)"
    by (simp add: round_double_finite)
  have p: "round_double (646501806116397 / 158456325028528675187087900672) =
      Fin (646501806116397 / 158456325028528675187087900672)"
    using round_double_exact [of 646501806116397 "- 97"] by simp
  have "round_finite (64650180611639700122833669590573 / 158456325028528675187087900672) =
      of_int 7177611906121728 * 2 powi (max (8 - 52) (- 1074))"
    by (rule round_finite_near) simp_all
  then have s: "round_double
      (64650180611639700122833669590573 / 158456325028528675187087900672) = Fin 408"
    by (simp add: round_double_finite)
  have "drawnLines newPage (drawSection newPage 408 527 408 527 (10 ^ 17)) ! 0 =
      foldLine 408 527 527 (num_div 408 (of_int (dbl_int (10 ^ 17 + 1)))) 0"
    by (simp add: drawnLines_drawSection)
  then have second:
    "px (lineStart (drawnLines newPage (drawSection newPage 408 527 408 527 (10 ^ 17)) ! 0)) =
       Fin 408"
    by (simp add: foldLine_def n17 num_div_def q p s)
  have "round_finite (1 / 2 ^ 1074 / 2) = of_int 0 * 2 powi (max (- 1075 - 52) (- 1074))"
    by (rule round_finite_tie_down) simp_all
  then have u: "round_double (1 / 2 ^ 1074 / 2) = Fin 0"
    by (simp add: round_double_finite)
  have z: "round_double 0 = Fin 0" by (simp add: round_double_def round_finite_def)
  have third: "px (lineStart (drawnLines newPage
      (drawSection newPage 0 0 (1 / 2 ^ 1074) 1 1) ! 0)) = Fin 0"
    using u by (simp add: drawnLines_drawSection foldLine_def n2 num_div_def z)
  have len: "length (drawnLines newPage (drawSection newPage (2 ^ 53) 0 1 1 1)) = 1"
    by (simp add: drawnLines_drawSection)
  from first second third len show ?thesis by simp
qed

text \<open>
  Claim C10. For a line count \<open>N \<le> 0\<close>, \<^verbatim>\<open>drawSection\<close> draws nothing and leaves the page
  as it was. The model of \<^verbatim>\<open>drawSection\<close> has no error to return, as the source has
  nothing to throw. The line spacing is not used: whatever its value \<open>s\<close>, the loop
  leaves the page as it was. At \<open>N = -1\<close> the divisor is 0 and the spacing is not a
  finite number.
\<close>

theorem drawSection_nonpositive:
  assumes "N \<le> 0"
  shows "drawSection page x y W h N = page
         \<and> drawnLines page (drawSection page x y W h N) = []
         \<and> (\<forall>s. drawSectionLoop page x y h N s 0 = page)
         \<and> num_div W (of_int (- 1) + 1) = NonFinite"
  using assms
  by (simp add: drawSection_content drawSectionLoop_content drawnLines_def num_div_def)

theorem drawSection_nonpositive_witness:
  "(- 1 :: int) \<le> 0
   \<and> drawSection (sectionedPage_full \<lparr>centerLines = [], pageHeight = 1054, pageWidth = 816\<rparr>)
        0 0 816 1054 (- 1) =
      sectionedPage_full \<lparr>centerLines = [], pageHeight = 1054, pageWidth = 816\<rparr>
   \<and> num_div 816 (of_int (- 1) + 1) = NonFinite"
  using drawSection_nonpositive
    [of "- 1" "sectionedPage_full \<lparr>centerLines = [], pageHeight = 1054, pageWidth = 816\<rparr>"
        0 0 816 1054]
  by simp

section \<open>Properties of drawNextSection\<close>

lemma half_exact: "is_double (r / 2) \<Longrightarrow> half r = r / 2"
  by (simp add: is_double_def half_def round_double_alt split: if_splits)

lemma update_last: "xs \<noteq> [] \<Longrightarrow> xs[length xs - Suc 0 := v] = butlast xs @ [v]"
  by (induction xs rule: rev_induct) simp_all

lemma nth_last: "xs \<noteq> [] \<Longrightarrow> xs ! (length xs - Suc 0) = last xs"
  by (simp add: last_conv_nth)

lemma drawNextSection_quad_new:
  assumes "currentSectionIndex st mod 4 = 0"
  shows "drawNextSection_quad cfg st n =
     Inr (st\<lparr>pdfDoc := pdfDoc st @
               [drawSection (sectionedPage_quad cfg) 0 (half (pageHeight cfg))
                  (half (pageWidth cfg)) (half (pageHeight cfg)) n],
             currentPage := Some (length (pdfDoc st)),
             currentSectionIndex := currentSectionIndex st + 1\<rparr>)"
  using assms
  by (simp add: drawNextSection_quad_def createSectionedPage_quad_def Let_def)

lemma mod4_cases:
  fixes i :: nat
  shows "i mod 4 = 0 \<or> i mod 4 = 1 \<or> i mod 4 = 2 \<or> i mod 4 = 3"
  by presburger

lemma drawNextSection_quad_same:
  assumes "currentSectionIndex st mod 4 \<noteq> 0" and "currentIsLast st"
  shows "drawNextSection_quad cfg st n =
     Inr (st\<lparr>pdfDoc := butlast (pdfDoc st) @
               [drawSection (last (pdfDoc st))
                  (fst (quadrantOrigin (pageWidth cfg) (pageHeight cfg) (currentSectionIndex st)))
                  (snd (quadrantOrigin (pageWidth cfg) (pageHeight cfg) (currentSectionIndex st)))
                  (half (pageWidth cfg)) (half (pageHeight cfg)) n],
             currentSectionIndex := currentSectionIndex st + 1\<rparr>)"
proof -
  consider "currentSectionIndex st mod 4 = 1" | "currentSectionIndex st mod 4 = 2"
    | "currentSectionIndex st mod 4 = 3"
    using assms(1) mod4_cases [of "currentSectionIndex st"] by auto
  then show ?thesis
  proof cases
    case 1 then show ?thesis
      using assms(2)
      by (simp add: drawNextSection_quad_def Let_def currentIsLast_def update_last nth_last
          quadrantOrigin_def)
  next
    case 2 then show ?thesis
      using assms(2)
      by (simp add: drawNextSection_quad_def Let_def currentIsLast_def update_last nth_last
          quadrantOrigin_def)
  next
    case 3 then show ?thesis
      using assms(2)
      by (simp add: drawNextSection_quad_def Let_def currentIsLast_def update_last nth_last
          quadrantOrigin_def)
  qed
qed

lemma drawNextSection_quad_inv:
  assumes "quad_inv st"
  shows "\<exists>st'. drawNextSection_quad cfg st n = Inr st' \<and> currentIsLast st'
            \<and> currentSectionIndex st' = currentSectionIndex st + 1"
proof (cases "currentSectionIndex st mod 4 = 0")
  case True
  show ?thesis by (simp add: drawNextSection_quad_new [OF True] currentIsLast_def)
next
  case False
  with assms have "currentIsLast st" by (simp add: quad_inv_def)
  with False show ?thesis
    by (simp add: drawNextSection_quad_same currentIsLast_def)
qed

lemma feed_append:
  "feed d (ns @ ms) st = (case feed d ns st of Inl e \<Rightarrow> Inl e | Inr st' \<Rightarrow> feed d ms st')"
  by (induction ns arbitrary: st) (simp_all split: sum.splits)


lemma quad_inv_fresh: "quad_inv (createSectionDrawer doc)"
  by (simp add: quad_inv_def createSectionDrawer_def)


lemma pageSize_sectionedPage_full:
  "pageSize (sectionedPage_full cfg) = Some (pageWidth cfg, pageHeight cfg)"
  by (simp add: sectionedPage_full_def Let_def drawCutLine_def drawLine_def setSize_def)

lemma drawNextSection_full_eq:
  "drawNextSection_full cfg st n =
     Inr (st\<lparr>pdfDoc := pdfDoc st @
               [drawSection (sectionedPage_full cfg) 0 0 (pageWidth cfg) (pageHeight cfg) n],
             currentPage := Some (length (pdfDoc st))\<rparr>)"
  by (simp add: drawNextSection_full_def createSectionedPage_full_def Let_def)

text \<open>
  Claim C9. Full-page mode. Every call of \<^verbatim>\<open>drawNextSection\<close>, in whatever state,
  returns, adds exactly one page to the document, of the configured width and height,
  and draws its fold lines on that page in the region of origin \<open>(0, 0)\<close>, of the full
  page width and the full page height.
\<close>

theorem full_page_placement:
  "\<exists>st'. drawNextSection_full cfg st n = Inr st'
     \<and> pdfDoc st' = pdfDoc st @
          [drawSection (sectionedPage_full cfg) 0 0 (pageWidth cfg) (pageHeight cfg) n]
     \<and> length (pdfDoc st') = length (pdfDoc st) + 1
     \<and> pageSize (last (pdfDoc st')) = Some (pageWidth cfg, pageHeight cfg)"
  by (simp add: drawNextSection_full_eq pageSize_drawSection pageSize_sectionedPage_full)

lemma feed_inv:
  assumes step: "\<And>st n. I st \<Longrightarrow> \<exists>st'. d st n = Inr st' \<and> I st'"
    and "I st"
  shows "\<exists>st'. feed d ns st = Inr st' \<and> I st'"
  using assms(2)
proof (induction ns arbitrary: st)
  case Nil
  then show ?case by simp
next
  case (Cons n ns)
  from step [OF Cons.prems, of n] obtain st1 where "d st n = Inr st1" "I st1" by blast
  with Cons.IH [of st1] show ?case by simp
qed

lemma rangeLoop_inv:
  assumes step: "\<And>st n. I st \<Longrightarrow> \<exists>st'. d st n = Inr st' \<and> I st'"
    and run: "rangeLoop d c mx sk st = Some r"
    and "I st"
  shows "\<exists>st'. r = Inr st' \<and> I st'"
proof -
  let ?P = "\<lambda>d' (c::int) (mx::int) (sk::int) st r.
    d' = d \<longrightarrow> I st \<longrightarrow> (\<exists>st'. r = Inr st' \<and> I st')"
  have "?P d c mx sk st r"
  proof (rule rangeLoop.raw_induct [where P = ?P, OF _ run])
    fix loop d' c mx sk st r
    assume IH: "\<And>d' c mx sk st r. loop d' c mx sk st = Some r \<Longrightarrow> ?P d' c mx sk st r"
      and eq: "(if c \<le> mx
                then case d' st c of Inl e \<Rightarrow> Some (Inl e)
                     | Inr st' \<Rightarrow> loop d' (dbl_int (c + sk)) mx sk st'
                else Some (Inr st)) = Some r"
    show "?P d' c mx sk st r"
    proof (intro impI)
      assume d': "d' = d" and I: "I st"
      show "\<exists>st'. r = Inr st' \<and> I st'"
      proof (cases "c \<le> mx")
        case False
        with eq I show ?thesis by auto
      next
        case True
        from step [OF I, of c] obtain st1 where st1: "d st c = Inr st1" "I st1" by blast
        with eq True d' have "loop d (dbl_int (c + sk)) mx sk st1 = Some r" by simp
        from IH [OF this] st1(2) show ?thesis by simp
      qed
    qed
  qed
  with assms(3) show ?thesis by simp
qed

text \<open>A loop whose count does not move, because the step is 0 or because the sum
  rounds back to the count, never returns.\<close>

lemma rangeLoop_stalls:
  assumes step: "\<And>st n. I st \<Longrightarrow> \<exists>st'. d st n = Inr st' \<and> I st'"
    and "I st" and "dbl_int (c + sk) = c" and "c \<le> mx"
  shows "rangeLoop d c mx sk st = None"
proof (rule ccontr)
  assume "rangeLoop d c mx sk st \<noteq> None"
  then obtain r where run: "rangeLoop d c mx sk st = Some r" by blast
  let ?P = "\<lambda>d' (c::int) (mx::int) (sk::int) st (r :: error + 'a).
    \<not> (d' = d \<and> dbl_int (c + sk) = c \<and> c \<le> mx \<and> I st)"
  have "?P d c mx sk st r"
  proof (rule rangeLoop.raw_induct [where P = ?P, OF _ run])
    fix loop d' c mx sk st r
    assume IH: "\<And>d' c mx sk st r. loop d' c mx sk st = Some r \<Longrightarrow> ?P d' c mx sk st r"
      and eq: "(if c \<le> mx
                then case d' st c of Inl e \<Rightarrow> Some (Inl e)
                     | Inr st' \<Rightarrow> loop d' (dbl_int (c + sk)) mx sk st'
                else Some (Inr st)) = Some (r :: error + 'a)"
    show "?P d' c mx sk st r"
    proof
      assume a: "d' = d \<and> dbl_int (c + sk) = c \<and> c \<le> mx \<and> I st"
      then obtain st1 where st1: "d st c = Inr st1" "I st1" using step by blast
      with eq a have "loop d c mx sk st1 = Some r" by simp
      from IH [OF this] a st1(2) show False by simp
    qed
  qed
  with assms show False by simp
qed

lemma mainLoop_inv:
  assumes step: "\<And>st n. I st \<Longrightarrow> \<exists>st'. d st n = Inr st' \<and> I st'"
    and "mainLoop d cs st = Some r" and "I st"
  shows "\<exists>st'. r = Inr st' \<and> I st'"
  using assms(2,3)
proof (induction cs arbitrary: st)
  case Nil
  then show ?case by auto
next
  case (Cons c rest)
  show ?case
  proof (cases c)
    case (Fixed n)
    from step [OF Cons.prems(2), of n] obtain st1 where st1: "d st n = Inr st1" "I st1"
      by blast
    with Cons.prems(1) Fixed have "mainLoop d rest st1 = Some r" by simp
    from Cons.IH [OF this st1(2)] show ?thesis .
  next
    case (Range mn mx sk)
    with Cons.prems(1) obtain r1 where r1: "rangeLoop d mn mx sk st = Some r1"
      by (cases "rangeLoop d mn mx sk st") simp_all
    from rangeLoop_inv [OF step r1 Cons.prems(2)] obtain st1 where
      st1: "r1 = Inr st1" "I st1"
      by blast
    with Cons.prems(1) Range r1 have "mainLoop d rest st1 = Some r" by simp
    from Cons.IH [OF this st1(2)] show ?thesis .
  qed
qed

lemma quad_step:
  "quad_inv st \<Longrightarrow> \<exists>st'. drawNextSection_quad cfg st n = Inr st' \<and> quad_inv st'"
  using drawNextSection_quad_inv [of st cfg n] by (auto simp: quad_inv_def)

lemma full_step:
  "True \<Longrightarrow> \<exists>st'. drawNextSection_full cfg st n = Inr st' \<and> True"
  by (simp add: drawNextSection_full_eq)

lemma drawNextSection_quad_no_default:
  "drawNextSection_quad cfg st n \<noteq> Inl NoCaseFound"
proof -
  have "c = 0 \<or> c = 1 \<or> c = 2 \<or> c = 3" if "c = currentSectionIndex st mod 4" for c
    using that mod4_cases [of "currentSectionIndex st"] by simp
  then show ?thesis
    by (auto simp: drawNextSection_quad_def Let_def createSectionedPage_quad_def
        split: sum.splits option.splits prod.splits if_splits)
qed

text \<open>
  Claim C7. Neither error is reachable. Any sequence of \<^verbatim>\<open>drawNextSection\<close> calls on a
  fresh section drawer returns without an error, in both variants; the \<^verbatim>\<open>default\<close>
  branch of the \<^verbatim>\<open>switch\<close> is not taken in any state at all; and neither the driver
  loop on a fresh drawer nor the script ends with an error, whatever the configuration.
\<close>

theorem error_branches_unreachable:
  "(\<exists>st. feed (drawNextSection_quad cfg) ns (createSectionDrawer doc) = Inr st)
   \<and> (\<exists>st. feed (drawNextSection_full cfg) ns (createSectionDrawer doc) = Inr st)
   \<and> drawNextSection_quad cfg st n \<noteq> Inl NoCaseFound
   \<and> mainLoop (drawNextSection_quad cfg) cs (createSectionDrawer doc) \<noteq> Some (Inl e)
   \<and> mainLoop (drawNextSection_full cfg) cs (createSectionDrawer doc) \<noteq> Some (Inl e)
   \<and> main_quad cfg \<noteq> Some (Inl e) \<and> main_full cfg \<noteq> Some (Inl e)"
proof -
  have q: "mainLoop (drawNextSection_quad cfg) cs (createSectionDrawer doc) \<noteq> Some (Inl e)"
    for cs doc
    using mainLoop_inv [where I = quad_inv and d = "drawNextSection_quad cfg",
        OF quad_step _ quad_inv_fresh] by fastforce
  have f: "mainLoop (drawNextSection_full cfg) cs (createSectionDrawer doc) \<noteq> Some (Inl e)"
    for cs doc
    using mainLoop_inv [where I = "\<lambda>_. True" and d = "drawNextSection_full cfg",
        OF full_step] by fastforce
  have "\<exists>st. feed (drawNextSection_quad cfg) ns (createSectionDrawer doc) = Inr st"
    using feed_inv [where I = quad_inv and d = "drawNextSection_quad cfg", OF quad_step quad_inv_fresh]
    by blast
  moreover have "\<exists>st. feed (drawNextSection_full cfg) ns (createSectionDrawer doc) = Inr st"
    using feed_inv [where I = "\<lambda>_. True" and d = "drawNextSection_full cfg", OF full_step]
    by blast
  moreover have "main_quad cfg \<noteq> Some (Inl e)"
    using q [of "centerLines cfg" PDFDocument_create]
    by (auto simp: main_quad_def map_sum_def split: sum.splits)
  moreover have "main_full cfg \<noteq> Some (Inl e)"
    using f [of "centerLines cfg" PDFDocument_create]
    by (auto simp: main_full_def map_sum_def split: sum.splits)
  ultimately show ?thesis using q f drawNextSection_quad_no_default by blast
qed

section \<open>Properties of the driver\<close>

lemma progression_Suc: "progression c sk (Suc n) = c # progression (c + sk) sk n"
  by (simp add: progression_def map_upt_Suc del: upt_Suc) (simp add: algebra_simps)

text \<open>An exact range: the loop first feeds the drawer the cut of the first \<open>n\<close> values of
  the progression and goes on from the value after them.\<close>

lemma rangeLoop_steps:
  assumes "0 < sk" and "- (2 ^ 53) \<le> c" and "mx + sk \<le> 2 ^ 53"
  shows "rangeLoop d c mx sk st =
     (case feed d (truncated mx (progression c sk n)) st of
        Inl e \<Rightarrow> Some (Inl e)
      | Inr st' \<Rightarrow>
          rangeLoop d (c + int (length (truncated mx (progression c sk n))) * sk) mx sk st')"
  using assms(2)
proof (induction n arbitrary: c st)
  case 0
  show ?case by (simp add: progression_def truncated_def)
next
  case (Suc n)
  show ?case
  proof (cases "c \<le> mx")
    case False
    then show ?thesis by (simp add: progression_Suc truncated_def)
  next
    case True
    have tr: "truncated mx (progression c sk (Suc n)) =
        c # truncated mx (progression (c + sk) sk n)"
      using True by (simp add: progression_Suc truncated_def)
    have "\<bar>c + sk\<bar> \<le> 2 ^ 53" using True Suc.prems assms(1,3) by simp
    then have exact: "dbl_int (c + sk) = c + sk" by (rule dbl_int_exact)
    have next_c: "- (2 ^ 53) \<le> c + sk" using Suc.prems assms(1) by simp
    show ?thesis
    proof (cases "d st c")
      case (Inl e)
      with True show ?thesis by (simp add: tr rangeLoop.simps [of d c])
    next
      case (Inr st1)
      have step: "rangeLoop d c mx sk st = rangeLoop d (c + sk) mx sk st1"
        using True Inr by (simp add: rangeLoop.simps [of d c] exact)
      show ?thesis
      proof (cases "feed d (truncated mx (progression (c + sk) sk n)) st1")
        case failed: (Inl e)
        with Suc.IH [OF next_c, of st1] Inr show ?thesis by (simp add: step tr)
      next
        case fed: (Inr st2)
        with Suc.IH [OF next_c, of st1] Inr show ?thesis
          by (simp add: step tr algebra_simps)
      qed
    qed
  qed
qed

lemma expandRange_past:
  assumes "0 < sk \<or> mx < mn"
  shows "mx < mn + int (length (expandRange mn mx sk)) * sk"
proof (cases "mx < mn")
  case True
  then show ?thesis by (simp add: expandRange_def truncated_def progression_def)
next
  case False
  with assms have sk: "0 < sk" by simp
  let ?n = "nat (mx - mn + 1)"
  let ?xs = "progression mn sk ?n"
  let ?len = "length (takeWhile (\<lambda>c. c \<le> mx) ?xs)"
  have len: "length ?xs = ?n" by (simp add: progression_def)
  show ?thesis
  proof (cases "?len < length ?xs")
    case True
    from nth_length_takeWhile [OF True] have "\<not> ?xs ! ?len \<le> mx" .
    moreover from True have "?xs ! ?len = mn + int ?len * sk"
      by (simp add: progression_def)
    ultimately show ?thesis by (simp add: expandRange_def truncated_def)
  next
    case False
    then have eq: "?len = ?n" using length_takeWhile_le [of "\<lambda>c. c \<le> mx" ?xs] len by simp
    have n: "int ?n = mx - mn + 1" using \<open>\<not> mx < mn\<close> by simp
    define a where "a = (mx - mn + 1) * sk"
    have "(mx - mn + 1) * 1 \<le> a"
      unfolding a_def using sk \<open>\<not> mx < mn\<close> by (intro mult_left_mono) simp_all
    then have "mx < mn + a" by simp
    then have "mx < mn + int ?n * sk" unfolding n a_def .
    with eq show ?thesis by (simp add: expandRange_def truncated_def)
  qed
qed

lemma expandRange_empty: "mx < mn \<Longrightarrow> expandRange mn mx sk = []"
  by (simp add: expandRange_def truncated_def progression_def)

lemma rangeLoop_ends:
  assumes "mx < mn \<or> exactRange mn mx sk"
  shows "rangeLoop d mn mx sk st = Some (feed d (expandRange mn mx sk) st)"
proof (cases "mx < mn")
  case True
  then show ?thesis by (simp add: expandRange_empty rangeLoop.simps [of d mn])
next
  case False
  with assms have ex: "0 < sk" "- (2 ^ 53) \<le> mn" "mx + sk \<le> 2 ^ 53"
    by (simp_all add: exactRange_def)
  have stop: "rangeLoop d (mn + int (length (expandRange mn mx sk)) * sk) mx sk st' =
      Some (Inr st')" for st'
    using expandRange_past [of sk mx mn] ex(1)
    by (simp add: rangeLoop.simps [of d "mn + int (length (expandRange mn mx sk)) * sk"])
  show ?thesis
    using rangeLoop_steps [OF ex, of d st "nat (mx - mn + 1)"]
    by (simp add: expandRange_def [symmetric] stop split: sum.splits)
qed

lemma feed_recordCall: "feed recordCall cs calls = Inr (calls @ cs)"
  by (induction cs arbitrary: calls) (simp_all add: recordCall_def)

lemma takeWhile_map_upt:
  assumes "m \<le> n" and "\<And>k. k < m \<Longrightarrow> P (f k)" and "m < n \<Longrightarrow> \<not> P (f m)"
  shows "takeWhile P (map f [0..<n]) = map f [0..<m]"
proof -
  from assms(1) have split: "[0..<n] = [0..<m] @ [m..<n]"
    by (metis le_add_diff_inverse upt_add_eq_append zero_le)
  have "takeWhile P (map f [m..<n]) = []"
  proof (cases "m < n")
    case True
    then have "[m..<n] = m # [Suc m..<n]" by (simp add: upt_conv_Cons)
    with assms(3) [OF True] show ?thesis by simp
  next
    case False
    then show ?thesis by simp
  qed
  moreover have "takeWhile P (map f [0..<m] @ map f [m..<n]) =
      map f [0..<m] @ takeWhile P (map f [m..<n])"
    by (rule takeWhile_append2) (use assms(2) in auto)
  ultimately show ?thesis by (simp add: split)
qed

lemma expandRange_explicit:
  assumes "0 < sk"
  shows "expandRange mn mx sk = progression mn sk (nat ((mx - mn) div sk + 1))"
proof -
  let ?m = "nat ((mx - mn) div sk + 1)"
  let ?n = "nat (mx - mn + 1)"
  have div_le: "(mx - mn) div sk \<le> mx - mn" if "0 \<le> mx - mn"
    using that assms by (metis div_by_1 zdiv_mono2 zero_less_one int_one_le_iff_zero_less)
  have mn: "?m \<le> ?n"
  proof (cases "0 \<le> mx - mn")
    case True
    with div_le show ?thesis by simp
  next
    case False
    then have "(mx - mn) div sk < 0" using assms by (simp add: div_neg_pos_less0)
    then show ?thesis by simp
  qed
  have below: "mn + int k * sk \<le> mx" if "k < ?m" for k
  proof -
    from that have "int k \<le> (mx - mn) div sk" by linarith
    then have "int k * sk \<le> (mx - mn) div sk * sk" using assms by (simp add: mult_right_mono)
    also have "\<dots> \<le> mx - mn"
      using assms by (metis mult.commute  mult_div_mod_eq add_increasing2 order_refl pos_mod_sign)
    finally show ?thesis by simp
  qed
  have above: "\<not> mn + int ?m * sk \<le> mx"
  proof -
    have "(mx - mn) div sk + 1 \<le> int ?m" by simp
    then have "((mx - mn) div sk + 1) * sk \<le> int ?m * sk"
      using assms by (simp add: mult_right_mono)
    moreover have "mx - mn < ((mx - mn) div sk + 1) * sk"
      using assms by (metis mult.commute  int_distrib(1) mult_1 add.commute
          mult_div_mod_eq pos_mod_bound add_strict_left_mono)
    ultimately show ?thesis by simp
  qed
  show ?thesis
    unfolding expandRange_def truncated_def progression_def
    using takeWhile_map_upt [of ?m ?n "\<lambda>c. c \<le> mx" "\<lambda>k. mn + int k * sk"] mn below above
    by blast
qed

lemma mainLoop_Range:
  assumes "mx < mn \<or> exactRange mn mx sk"
  shows "mainLoop d (Range mn mx sk # rest) st =
     (case feed d (expandRange mn mx sk) st of
        Inl e \<Rightarrow> Some (Inl e)
      | Inr st' \<Rightarrow> mainLoop d rest st')"
  by (simp add: rangeLoop_ends [OF assms] split: sum.splits)

lemma mainLoop_ends:
  assumes "list_all rangeEnds cs"
  shows "mainLoop d cs st = Some (feed d (expandConfig cs) st)"
  using assms
proof (induction cs arbitrary: st)
  case Nil
  show ?case by (simp add: expandConfig_def)
next
  case (Cons c rest)
  then have IH: "mainLoop d rest st' = Some (feed d (expandConfig rest) st')" for st'
    by simp
  show ?case
  proof (cases c)
    case (Fixed n)
    then show ?thesis by (simp add: expandConfig_def IH [unfolded expandConfig_def] split: sum.splits)
  next
    case (Range mn mx sk)
    with Cons.prems have "mx < mn \<or> exactRange mn mx sk" by simp
    then have loop: "rangeLoop d mn mx sk st = Some (feed d (expandRange mn mx sk) st)"
      by (rule rangeLoop_ends)
    show ?thesis
    proof (cases "feed d (expandRange mn mx sk) st")
      case (Inl e)
      with Range show ?thesis by (simp add: loop expandConfig_def feed_append)
    next
      case (Inr st1)
      with Range IH [of st1] show ?thesis by (simp add: loop expandConfig_def feed_append)
    qed
  qed
qed

text \<open>Integers that the doubles have, and sums that they round.\<close>

lemma dbl_int_numeral: "\<bar>numeral n :: int\<bar> \<le> 2 ^ 53 \<Longrightarrow> dbl_int (numeral n) = numeral n"
  by (rule dbl_int_exact)

lemma dbl_int_below: "dbl_int (- 9007199254740995) = - 9007199254740996"
proof -
  have "round_finite (- 9007199254740995) =
      of_int (- 4503599627370498) * 2 powi (max (53 - 52) (- 1074))"
    by (rule round_finite_tie_down) simp_all
  then show ?thesis by (simp add: dbl_int_def)
qed

lemma dbl_int_above: "dbl_int (- 9007199254740993) = - 9007199254740992"
proof -
  have "round_finite (- 9007199254740993) =
      of_int (- 4503599627370496) * 2 powi (max (53 - 52) (- 1074))"
    by (rule round_finite_tie_up) simp_all
  then show ?thesis by (simp add: dbl_int_def)
qed

text \<open>
  Claim C4, as amended. For a range section \<open>{min, max, step}\<close> with \<open>min > max\<close>, or with
  \<open>step > 0\<close>, \<open>min \<ge> -2^53\<close> and \<open>max + step \<le> 2^53\<close>, the counts that the driver feeds to
  \<^verbatim>\<open>drawNextSection\<close> for this entry of the configuration are
  \<open>expandRange min max step\<close>: the arithmetic progression \<open>min, min + step, ...\<close> cut before
  its first value above \<open>max\<close>, in this order, after which the driver goes on with the
  rest of the configuration (so a drawer that records its calls has recorded this list).
  With a positive step this is the progression up to its last value that is at most
  \<open>max\<close>, and with \<open>min > max\<close> it is empty.
\<close>

theorem range_expansion:
  assumes "mx < mn \<or> exactRange mn mx sk"
  shows "mainLoop d (Range mn mx sk # rest) st =
           (case feed d (expandRange mn mx sk) st of
              Inl e \<Rightarrow> Some (Inl e)
            | Inr st' \<Rightarrow> mainLoop d rest st')
         \<and> mainLoop recordCall [Range mn mx sk] [] = Some (Inr (expandRange mn mx sk))
         \<and> (0 < sk \<longrightarrow> expandRange mn mx sk = progression mn sk (nat ((mx - mn) div sk + 1)))
         \<and> (mx < mn \<longrightarrow> expandRange mn mx sk = [])"
  using mainLoop_Range [OF assms, of d rest st] mainLoop_Range [OF assms, of recordCall "[]" "[]"]
    expandRange_explicit [of sk mn mx] expandRange_empty [of mx mn sk]
  by (simp add: feed_recordCall)

text \<open>The first range of the quadrant configuration.\<close>

theorem range_expansion_witness:
  "((11::int) < 3 \<or> exactRange 3 11 2)
   \<and> mainLoop recordCall [Range 3 11 2] [] = Some (Inr [3, 5, 7, 9, 11])
   \<and> expandRange 3 11 2 = [3, 5, 7, 9, 11]
   \<and> progression 3 2 (nat ((11 - 3) div 2 + 1)) = [3, 5, 7, 9, 11]"
proof -
  have v: "progression 3 2 5 = [3, 5, 7, 9, 11]"
    by (simp add: progression_def eval_nat_numeral)
  have h: "(11::int) < 3 \<or> exactRange 3 11 2" by (simp add: exactRange_def)
  from range_expansion [OF h, of recordCall "[]" "[]"]
  have "mainLoop recordCall [Range 3 11 2] [] = Some (Inr (expandRange 3 11 2))"
    and "expandRange 3 11 2 = progression 3 2 (nat ((11 - 3) div 2 + 1))"
    by (simp_all add: feed_recordCall)
  with h show ?thesis by (simp add: v)
qed

text \<open>
  Claim C4 as stated fails. For the range \<open>{min = -9007199254740994,
  max = -9007199254740992, step = 1}\<close>, three doubles, the progression cut at \<open>max\<close> has
  three values, and the driver feeds two: \<open>min + 1\<close> is no double and rounds to \<open>max\<close>.
\<close>

theorem range_expansion_rounded:
  "mainLoop recordCall [Range (- 9007199254740994) (- 9007199254740992) 1] [] =
     Some (Inr [- 9007199254740994, - 9007199254740992])
   \<and> expandRange (- 9007199254740994) (- 9007199254740992) 1 =
       [- 9007199254740994, - 9007199254740993, - 9007199254740992]"
proof -
  have e: "dbl_int (- 9007199254740991) = - 9007199254740991"
    by (rule dbl_int_exact) simp
  have "rangeLoop recordCall (- 9007199254740994) (- 9007199254740992) 1 [] =
      Some (Inr [- 9007199254740994, - 9007199254740992])"
    by (simp add: rangeLoop.simps [of recordCall "- 9007199254740994"]
        rangeLoop.simps [of recordCall "- 9007199254740992"]
        rangeLoop.simps [of recordCall "- 9007199254740991"]
        recordCall_def dbl_int_above e)
  moreover have "expandRange (- 9007199254740994) (- 9007199254740992) 1 =
       [- 9007199254740994, - 9007199254740993, - 9007199254740992]"
    by (simp add: expandRange_def truncated_def progression_def eval_nat_numeral)
  ultimately show ?thesis by simp
qed

text \<open>
  Claim C6, as amended. For a configuration in which every range has its minimum above
  its maximum, or a positive step with \<open>min \<ge> -2^53\<close> and \<open>max + step \<le> 2^53\<close>, the expansion
  ends: the driver loop returns, having fed the drawer the finite list
  \<open>expandConfig (centerLines cfg)\<close>, entry by entry in the order of the configuration. If
  moreover none of these counts is above \<open>2^53\<close>, up to where the line index of
  \<^verbatim>\<open>drawSection\<close> counts exactly, both variants of the script produce their document.
\<close>

theorem expansion_terminates:
  assumes "list_all rangeEnds (centerLines cfg)"
  shows "mainLoop d (centerLines cfg) st = Some (feed d (expandConfig (centerLines cfg)) st)
         \<and> mainLoop recordCall (centerLines cfg) [] = Some (Inr (expandConfig (centerLines cfg)))
         \<and> (list_all (\<lambda>n. n \<le> 2 ^ 53) (expandConfig (centerLines cfg)) \<longrightarrow>
              (\<exists>doc. main_quad cfg = Some (Inr doc))
              \<and> (\<exists>doc. main_full cfg = Some (Inr doc)))"
proof -
  from feed_inv [where I = quad_inv and d = "drawNextSection_quad cfg", OF quad_step quad_inv_fresh]
  obtain stq where "feed (drawNextSection_quad cfg) (expandConfig (centerLines cfg))
      (createSectionDrawer PDFDocument_create) = Inr stq" by blast
  then have q: "main_quad cfg = Some (Inr (pdfDoc stq))"
    by (simp add: main_quad_def mainLoop_ends [OF assms])
  from feed_inv [where I = "\<lambda>_. True" and d = "drawNextSection_full cfg", OF full_step]
  obtain stf where "feed (drawNextSection_full cfg) (expandConfig (centerLines cfg))
      (createSectionDrawer PDFDocument_create) = Inr stf" by blast
  then have f: "main_full cfg = Some (Inr (pdfDoc stf))"
    by (simp add: main_full_def mainLoop_ends [OF assms])
  show ?thesis
    using mainLoop_ends [OF assms, of d st] mainLoop_ends [OF assms, of recordCall "[]"] q f
    by (simp add: feed_recordCall)
qed

text \<open>The configuration that the quadrant variant ships: twelve sections.\<close>

theorem expansion_terminates_witness:
  "list_all rangeEnds (centerLines config_quad)
   \<and> list_all (\<lambda>n. n \<le> 2 ^ 53) (expandConfig (centerLines config_quad))
   \<and> mainLoop recordCall (centerLines config_quad) [] =
       Some (Inr [3, 5, 7, 9, 11, 15, 19, 23, 31, 39, 51, 65])
   \<and> (\<exists>doc. main_quad config_quad = Some (Inr doc))"
proof -
  have h: "list_all rangeEnds (centerLines config_quad)"
    by (simp add: config_quad_def exactRange_def)
  have v: "expandConfig (centerLines config_quad) = [3, 5, 7, 9, 11, 15, 19, 23, 31, 39, 51, 65]"
    by (simp add: config_quad_def expandConfig_def expandRange_def truncated_def
        progression_def eval_nat_numeral)
  have g: "list_all (\<lambda>n. n \<le> 2 ^ 53) (expandConfig (centerLines config_quad))"
    by (simp add: v)
  from expansion_terminates [OF h, of recordCall "[]"] g
  have "mainLoop recordCall (centerLines config_quad) [] =
      Some (Inr (expandConfig (centerLines config_quad)))"
    and "\<exists>doc. main_quad config_quad = Some (Inr doc)"
    by blast+
  with h g show ?thesis by (simp only: v simp_thms)
qed

text \<open>
  Claim C6 as stated fails. The range \<open>{min = 1, max = 1, step = 0}\<close> is a configuration
  entry of integers whose expansion never ends, with a recording drawer and in both
  variants of the script. So is the range \<open>{min = -9007199254740996,
  max = -9007199254740992, step = 1}\<close>, whose step is positive: \<open>min + 1\<close> is no double,
  and rounds back to \<open>min\<close>.
\<close>

theorem expansion_diverges:
  "mainLoop recordCall [Range 1 1 0] [] = None
   \<and> main_quad \<lparr>centerLines = [Range 1 1 0], pageHeight = 1054, pageWidth = 816\<rparr> = None
   \<and> main_full \<lparr>centerLines = [Range 1 1 0], pageHeight = 1054, pageWidth = 816\<rparr> = None
   \<and> mainLoop recordCall [Range (- 9007199254740996) (- 9007199254740992) 1] [] = None
   \<and> main_quad \<lparr>centerLines = [Range (- 9007199254740996) (- 9007199254740992) 1],
                 pageHeight = 1054, pageWidth = 816\<rparr> = None
   \<and> main_full \<lparr>centerLines = [Range (- 9007199254740996) (- 9007199254740992) 1],
                 pageHeight = 1054, pageWidth = 816\<rparr> = None"
proof -
  have one: "dbl_int 1 = 1" using dbl_int_exact [of 1] by simp
  note low = dbl_int_below
  have "rangeLoop recordCall 1 1 0 [] = None"
    by (rule rangeLoop_stalls [where I = "\<lambda>_. True"]) (simp_all add: recordCall_def one)
  moreover have "rangeLoop (drawNextSection_quad cfg) 1 1 0 (createSectionDrawer doc) = None"
    for cfg doc
    by (rule rangeLoop_stalls [where I = quad_inv, OF quad_step quad_inv_fresh])
      (simp_all add: one)
  moreover have "rangeLoop (drawNextSection_full cfg) 1 1 0 (createSectionDrawer doc) = None"
    for cfg doc
    by (rule rangeLoop_stalls [where I = "\<lambda>_. True", OF full_step]) (simp_all add: one)
  moreover have "rangeLoop recordCall (- 9007199254740996) (- 9007199254740992) 1 [] = None"
    by (rule rangeLoop_stalls [where I = "\<lambda>_. True"]) (simp_all add: recordCall_def low)
  moreover have "rangeLoop (drawNextSection_quad cfg) (- 9007199254740996)
      (- 9007199254740992) 1 (createSectionDrawer doc) = None" for cfg doc
    by (rule rangeLoop_stalls [where I = quad_inv, OF quad_step quad_inv_fresh])
      (simp_all add: low)
  moreover have "rangeLoop (drawNextSection_full cfg) (- 9007199254740996)
      (- 9007199254740992) 1 (createSectionDrawer doc) = None" for cfg doc
    by (rule rangeLoop_stalls [where I = "\<lambda>_. True", OF full_step]) (simp_all add: low)
  ultimately show ?thesis by (simp add: main_quad_def main_full_def)
qed


section \<open>The end-to-end example\<close>

text \<open>The run of the quadrant variant on the example configuration, evaluated: one page,
  the cut lines and the two sections; every number in it is an integer that the doubles
  have.\<close>

lemma round_finite_numeral:
  "\<bar>numeral n :: int\<bar> \<le> 2 ^ 53 \<Longrightarrow> round_finite (numeral n) = numeral n"
  using round_finite_exact [of "numeral n" 0] by simp

lemma round_double_numeral:
  "\<bar>numeral n :: int\<bar> \<le> 2 ^ 53 \<Longrightarrow> round_double (numeral n) = Fin (numeral n)"
  using round_double_of_int [of "numeral n"] by simp

lemma example_run:
  "main_quad example_quad = Some (Inr [
     drawSection (drawSection (sectionedPage_quad example_quad) 0 527 408 527 3) 408 527 408 527 5])"
proof -
  define p1 where "p1 = drawSection (sectionedPage_quad example_quad) 0 527 408 527 3"
  define st0 :: SectionDrawer where "st0 = createSectionDrawer PDFDocument_create"
  define st1 where "st1 = \<lparr>pdfDoc = [p1], currentSectionIndex = 1, currentPage = Some 0\<rparr>"
  have h: "half 816 = 408" "half 1054 = 527"
    by (simp_all add: half_def round_finite_numeral)
  have c: "pageWidth example_quad = 816" "pageHeight example_quad = 1054"
    by (simp_all add: example_quad_def)
  have i0: "currentSectionIndex st0 mod 4 = 0"
    by (simp add: st0_def createSectionDrawer_def)
  have s1: "drawNextSection_quad example_quad st0 3 = Inr st1"
    by (simp add: drawNextSection_quad_new [OF i0] c h)
      (simp add: st0_def st1_def p1_def createSectionDrawer_def PDFDocument_create_def)
  have i1: "currentSectionIndex st1 mod 4 \<noteq> 0" by (simp add: st1_def)
  have l1: "currentIsLast st1" by (simp add: currentIsLast_def st1_def)
  have s2: "drawNextSection_quad example_quad st1 5 =
      Inr \<lparr>pdfDoc = [drawSection p1 408 527 408 527 5], currentSectionIndex = 2,
           currentPage = Some 0\<rparr>"
    by (simp add: drawNextSection_quad_same [OF i1 l1] c h)
      (simp add: st1_def quadrantOrigin_def h)
  have "mainLoop (drawNextSection_quad example_quad) [Fixed 3, Fixed 5] st0 =
      Some (Inr \<lparr>pdfDoc = [drawSection p1 408 527 408 527 5], currentSectionIndex = 2,
           currentPage = Some 0\<rparr>)"
    by (simp add: s1 s2)
  moreover have "centerLines example_quad = [Fixed 3, Fixed 5]" by (simp add: example_quad_def)
  ultimately show ?thesis
    by (simp add: main_quad_def st0_def [symmetric] p1_def del: mainLoop.simps)
qed

lemma example_foldLines:
  "map (\<lambda>l. (lineStart l, lineEnd l))
     (foldLines (drawSection (drawSection (sectionedPage_quad example_quad) 0 527 408 527 3)
        408 527 408 527 5)) =
   [(\<lparr>px = Fin 102, py = Fin 527\<rparr>, \<lparr>px = Fin 102, py = Fin 1054\<rparr>),
    (\<lparr>px = Fin 204, py = Fin 527\<rparr>, \<lparr>px = Fin 204, py = Fin 1054\<rparr>),
    (\<lparr>px = Fin 306, py = Fin 527\<rparr>, \<lparr>px = Fin 306, py = Fin 1054\<rparr>),
    (\<lparr>px = Fin 476, py = Fin 527\<rparr>, \<lparr>px = Fin 476, py = Fin 1054\<rparr>),
    (\<lparr>px = Fin 544, py = Fin 527\<rparr>, \<lparr>px = Fin 544, py = Fin 1054\<rparr>),
    (\<lparr>px = Fin 612, py = Fin 527\<rparr>, \<lparr>px = Fin 612, py = Fin 1054\<rparr>),
    (\<lparr>px = Fin 680, py = Fin 527\<rparr>, \<lparr>px = Fin 680, py = Fin 1054\<rparr>),
    (\<lparr>px = Fin 748, py = Fin 527\<rparr>, \<lparr>px = Fin 748, py = Fin 1054\<rparr>)]"
proof -
  have cut: "foldLines (sectionedPage_quad cfg) = []" for cfg
    by (simp add: foldLines_def sectionedPage_quad_def Let_def drawCutLine_def drawLine_def
        setSize_def newPage_def)
  have fold: "filter (\<lambda>l. dashArray l = [4, 2, 1, 2] \<or> dashArray l = [4, 1])
      (map (foldLine x y h s) ks) = map (foldLine x y h s) ks" for x y h s ks
    by (induction ks) (simp_all add: foldLine_def)
  have "foldLines (drawSection (drawSection (sectionedPage_quad example_quad) 0 527 408 527 3)
        408 527 408 527 5) =
      map (foldLine 0 527 527 (num_div 408 (of_int (dbl_int (3 + 1))))) [0..<nat 3] @
      map (foldLine 408 527 527 (num_div 408 (of_int (dbl_int (5 + 1))))) [0..<nat 5]"
    using cut [of example_quad] by (simp add: foldLines_def drawSection_content fold)
  then show ?thesis
    by (simp add: foldLine_def eval_nat_numeral dbl_int_numeral num_div_def
        round_double_numeral)
qed

lemma example_regions:
  "regionLineXs 0 527 408 527
      (drawSection (drawSection (sectionedPage_quad example_quad) 0 527 408 527 3)
        408 527 408 527 5) = [Fin 102, Fin 204, Fin 306]"
  "regionLineXs 408 527 408 527
      (drawSection (drawSection (sectionedPage_quad example_quad) 0 527 408 527 3)
        408 527 408 527 5) = [Fin 476, Fin 544, Fin 612, Fin 680, Fin 748]"
  "regionLineXs 0 0 408 527
      (drawSection (drawSection (sectionedPage_quad example_quad) 0 527 408 527 3)
        408 527 408 527 5) = []"
  "regionLineXs 408 0 408 527
      (drawSection (drawSection (sectionedPage_quad example_quad) 0 527 408 527 3)
        408 527 408 527 5) = []"
proof -
  define P where "P = drawSection (drawSection (sectionedPage_quad example_quad) 0 527 408 527 3)
        408 527 408 527 5"
  have r: "regionLineXs x0 y0 w h P =
      map (\<lambda>p. px (fst p))
        (filter (\<lambda>p. insideRegion x0 y0 w h (fst p) \<and> insideRegion x0 y0 w h (snd p))
           (map (\<lambda>l. (lineStart l, lineEnd l)) (foldLines P)))" for x0 y0 w h
    by (simp add: regionLineXs_def filter_map comp_def)
  show "regionLineXs 0 527 408 527
      (drawSection (drawSection (sectionedPage_quad example_quad) 0 527 408 527 3)
        408 527 408 527 5) = [Fin 102, Fin 204, Fin 306]"
    unfolding P_def [symmetric] r unfolding P_def example_foldLines
    by (simp add: insideRegion_def)
  show "regionLineXs 408 527 408 527
      (drawSection (drawSection (sectionedPage_quad example_quad) 0 527 408 527 3)
        408 527 408 527 5) = [Fin 476, Fin 544, Fin 612, Fin 680, Fin 748]"
    unfolding P_def [symmetric] r unfolding P_def example_foldLines
    by (simp add: insideRegion_def)
  show "regionLineXs 0 0 408 527
      (drawSection (drawSection (sectionedPage_quad example_quad) 0 527 408 527 3)
        408 527 408 527 5) = []"
    unfolding P_def [symmetric] r unfolding P_def example_foldLines
    by (simp add: insideRegion_def)
  show "regionLineXs 408 0 408 527
      (drawSection (drawSection (sectionedPage_quad example_quad) 0 527 408 527 3)
        408 527 408 527 5) = []"
    unfolding P_def [symmetric] r unfolding P_def example_foldLines
    by (simp add: insideRegion_def)
qed

lemma example_size:
  "pageSize (drawSection (drawSection (sectionedPage_quad example_quad) 0 527 408 527 3)
        408 527 408 527 5) = Some (816, 1054)"
  by (simp add: pageSize_drawSection sectionedPage_quad_def Let_def drawCutLine_def drawLine_def
      setSize_def example_quad_def)

lemma example_count:
  "length (foldLines (drawSection (drawSection (sectionedPage_quad example_quad) 0 527 408 527 3)
        408 527 408 527 5)) = 8"
  using arg_cong [OF example_foldLines, of length] by simp

text \<open>
  Claim C5 as stated fails: on the example configuration the lines of the top-left
  quadrant are not at \<open>204k/4\<close> and those of the top-right quadrant not at
  \<open>408 + 204k/6\<close>.
\<close>

theorem quadrant_example_claimed_positions:
  "map (regionLineXs 0 527 408 527) (pagesOf (main_quad example_quad)) \<noteq>
     [[Fin (204 * 1 / 4), Fin (204 * 2 / 4), Fin (204 * 3 / 4)]]
   \<and> map (regionLineXs 408 527 408 527) (pagesOf (main_quad example_quad)) \<noteq>
     [[Fin (408 + 204 * 1 / 6), Fin (408 + 204 * 2 / 6), Fin (408 + 204 * 3 / 6),
       Fin (408 + 204 * 4 / 6), Fin (408 + 204 * 5 / 6)]]"
  by (simp add: example_run pagesOf_def example_regions)

text \<open>
  Claim C5, as amended. In quadrant mode the configuration \<open>[{numLines: 3}, {numLines: 5}]\<close>
  with a page of 816 by 1054 produces a document of exactly one page, of that size, with
  eight fold lines: three in the top-left quadrant, at \<open>x = 408k/4\<close> for \<open>k = 1..3\<close>, five
  in the top-right quadrant, at \<open>x = 408 + 408k/6\<close> for \<open>k = 1..5\<close>, and none in the two
  bottom quadrants. (The width of a quadrant is \<open>816 / 2 = 408\<close>.)
\<close>

theorem quadrant_example:
  "main_quad example_quad = Some (Inr (pagesOf (main_quad example_quad)))
   \<and> length (pagesOf (main_quad example_quad)) = 1
   \<and> map pageSize (pagesOf (main_quad example_quad)) = [Some (816, 1054)]
   \<and> map (length \<circ> foldLines) (pagesOf (main_quad example_quad)) = [8]
   \<and> map (regionLineXs 0 527 408 527) (pagesOf (main_quad example_quad)) =
       [[Fin (408 * 1 / 4), Fin (408 * 2 / 4), Fin (408 * 3 / 4)]]
   \<and> map (regionLineXs 408 527 408 527) (pagesOf (main_quad example_quad)) =
       [[Fin (408 + 408 * 1 / 6), Fin (408 + 408 * 2 / 6), Fin (408 + 408 * 3 / 6),
         Fin (408 + 408 * 4 / 6), Fin (408 + 408 * 5 / 6)]]
   \<and> map (regionLineXs 0 0 408 527) (pagesOf (main_quad example_quad)) = [[]]
   \<and> map (regionLineXs 408 0 408 527) (pagesOf (main_quad example_quad)) = [[]]"
  by (simp add: example_run pagesOf_def example_regions example_size example_count)

end
